theory Spec2Isabelle
  imports Complex_Main "HOL-Library.AList"
begin

section \<open>Python values and built-ins used by \<open>catalogs.py\<close>\<close>

text \<open>
  Exceptions are values: every operation of the model that can raise in the source
  returns \<open>error + 'a\<close>, with \<open>Inl\<close> carrying the exception class.
\<close>

datatype error =
  TypeError | ValueError | OverflowError | AttributeError | KeyError | IndexError
  | StopIteration | AssertionError

definition bind :: "error + 'a \<Rightarrow> ('a \<Rightarrow> error + 'b) \<Rightarrow> error + 'b" where
  "bind m f = (case m of Inl e \<Rightarrow> Inl e | Inr x \<Rightarrow> f x)"

text \<open>A comprehension \<open>[f(x) for x in xs]\<close> whose body may raise.\<close>

fun map_err :: "('a \<Rightarrow> error + 'b) \<Rightarrow> 'a list \<Rightarrow> error + 'b list" where
  "map_err f [] = Inr []"
| "map_err f (x # xs) = bind (f x) (\<lambda>y. bind (map_err f xs) (\<lambda>ys. Inr (y # ys)))"

text \<open>\<open>xs[i]\<close> on a Python list: a negative index counts from the end, an index out of
  range raises \<open>IndexError\<close>.\<close>

definition py_index :: "'a list \<Rightarrow> int \<Rightarrow> error + 'a" where
  "py_index xs i =
     (if 0 \<le> i \<and> i < int (length xs) then Inr (xs ! nat i)
      else if i < 0 \<and> - int (length xs) \<le> i then Inr (xs ! nat (int (length xs) + i))
      else Inl IndexError)"

text \<open>\<open>xs.index(x)\<close>: the position of the first occurrence, \<open>ValueError\<close> when absent.\<close>

fun list_index :: "'a list \<Rightarrow> 'a \<Rightarrow> error + nat" where
  "list_index [] x = Inl ValueError"
| "list_index (y # ys) x =
     (if y = x then Inr 0 else bind (list_index ys x) (\<lambda>i. Inr (Suc i)))"

text \<open>\<open>d[k]\<close> on a dict, kept as an association list in insertion order:
  \<open>KeyError\<close> when the key is absent. Storing \<open>d[k] = v\<close> is \<open>AList.update\<close>, which
  overwrites in place or appends, as Python's insertion-ordered dict does.\<close>

definition dict_get :: "('k \<times> 'v) list \<Rightarrow> 'k \<Rightarrow> error + 'v" where
  "dict_get d k = (case map_of d k of None \<Rightarrow> Inl KeyError | Some v \<Rightarrow> Inr v)"

text \<open>\<open>str(n)\<close> for an int, and \<open>int(s)\<close> for the strings that arise here (an optional
  sign followed by decimal digits; anything else raises \<open>ValueError\<close>).\<close>

definition digit_char :: "nat \<Rightarrow> char" where
  "digit_char n = ''0123456789'' ! n"

fun str_nat :: "nat \<Rightarrow> string" where
  "str_nat n = (if n < 10 then [digit_char n] else str_nat (n div 10) @ [digit_char (n mod 10)])"

declare str_nat.simps [simp del]

definition str_int :: "int \<Rightarrow> string" where
  "str_int i = (if i < 0 then CHR ''-'' # str_nat (nat (- i)) else str_nat (nat i))"

definition digit_val :: "char \<Rightarrow> nat option" where
  "digit_val c =
     (let code = (of_char c :: nat) in if 48 \<le> code \<and> code \<le> 57 then Some (code - 48) else None)"

fun digits_val :: "nat \<Rightarrow> string \<Rightarrow> nat option" where
  "digits_val acc [] = Some acc"
| "digits_val acc (c # cs) =
     (case digit_val c of None \<Rightarrow> None | Some d \<Rightarrow> digits_val (10 * acc + d) cs)"

definition int_of_str :: "string \<Rightarrow> error + int" where
  "int_of_str s =
     (case s of
        [] \<Rightarrow> Inl ValueError
      | c # cs \<Rightarrow>
          if c = CHR ''-'' then
            (if cs = [] then Inl ValueError
             else case digits_val 0 cs of None \<Rightarrow> Inl ValueError | Some n \<Rightarrow> Inr (- int n))
          else (case digits_val 0 s of None \<Rightarrow> Inl ValueError | Some n \<Rightarrow> Inr (int n)))"

text \<open>Right alignment of a format field, \<open>f"{s:c>w}"\<close>: pad on the left with the fill
  character up to the minimum width, never truncate.\<close>

definition rjust :: "nat \<Rightarrow> char \<Rightarrow> string \<Rightarrow> string" where
  "rjust w c s = replicate (w - length s) c @ s"

section \<open>CatalogDesignator\<close>

record designator =
  catalog_name :: string
  object_number :: int
  width :: nat
  field :: string

definition has_number :: "designator \<Rightarrow> bool" where
  "has_number d = (object_number d > 0)"

definition get_catalog_width :: "designator \<Rightarrow> nat" where
  "get_catalog_width d = width d"

definition get_designator_text :: "designator \<Rightarrow> string" where
  "get_designator_text d =
     (let number_str = (if has_number d then str_int (object_number d) else [])
      in rjust 3 CHR '' '' (catalog_name d) @ '' '' @ rjust (get_catalog_width d) CHR ''-'' number_str)"

definition refresh_field :: "designator \<Rightarrow> designator" where
  "refresh_field d = d\<lparr>field := get_designator_text d\<rparr>"

definition CatalogDesignator_init :: "string \<Rightarrow> int \<Rightarrow> designator" where
  "CatalogDesignator_init name max_seq =
     refresh_field \<lparr>catalog_name = name, object_number = 0,
                    width = length (str_int max_seq), field = []\<rparr>"

definition append_number :: "designator \<Rightarrow> int \<Rightarrow> error + designator" where
  "append_number d number =
     (let number_str = str_int (object_number d) @ str_int number;
          number_str = (if length number_str > get_catalog_width d then tl number_str else number_str)
      in bind (int_of_str number_str) (\<lambda>n. Inr (refresh_field (d\<lparr>object_number := n\<rparr>))))"

definition set_number :: "designator \<Rightarrow> int \<Rightarrow> designator" where
  "set_number d number = refresh_field (d\<lparr>object_number := number\<rparr>)"

definition reset_number :: "designator \<Rightarrow> designator" where
  "reset_number d = refresh_field (d\<lparr>object_number := 0\<rparr>)"

text \<open>A run of keypad entries: \<open>append_number\<close> for each digit in turn, stopping at the
  first exception.\<close>

fun append_numbers :: "designator \<Rightarrow> int list \<Rightarrow> error + designator" where
  "append_numbers d [] = Inr d"
| "append_numbers d (x # xs) = bind (append_number d x) (\<lambda>d'. append_numbers d' xs)"

text \<open>The decimal value of a run of keyed digits, oldest first (the reading of the
  keypad buffer that the designator is compared with).\<close>

definition decimal_value :: "int list \<Rightarrow> int" where
  "decimal_value ds = foldl (\<lambda>a x. 10 * a + x) 0 ds"

section \<open>CompositeObject\<close>

text \<open>
  A Python float: a finite value, an infinity, or not-a-number. Every ordering
  comparison with not-a-number is false.
\<close>

datatype fl = Finite real | PosInf | NegInf | NaN

fun fl_less :: "fl \<Rightarrow> fl \<Rightarrow> bool" where
  "fl_less NaN y = False"
| "fl_less x NaN = False"
| "fl_less (Finite x) (Finite y) = (x < y)"
| "fl_less NegInf NegInf = False"
| "fl_less NegInf y = True"
| "fl_less x NegInf = False"
| "fl_less PosInf y = False"
| "fl_less x PosInf = True"

definition fl_ge :: "fl \<Rightarrow> fl \<Rightarrow> bool" where
  "fl_ge x y = (x \<noteq> NaN \<and> y \<noteq> NaN \<and> \<not> fl_less x y)"

text \<open>
  A dynamically typed attribute value: Python \<open>None\<close>, a string, an int or a float.
  An int and a float compare by their exact values.
\<close>

datatype pyval = PNone | PStr string | PInt int | PFloat fl

definition num_of :: "pyval \<Rightarrow> fl option" where
  "num_of v =
     (case v of PInt i \<Rightarrow> Some (Finite (real_of_int i)) | PFloat x \<Rightarrow> Some x | _ \<Rightarrow> None)"

text \<open>The fields of \<open>CompositeObject\<close> that \<open>catalogs.py\<close> reads. The attribute
  \<open>id\<close> is \<open>id_num\<close> here and \<open>catalog_code\<close> is \<open>obj_catalog_code\<close>
  (the catalog record below has a field of the same name).\<close>

record obj =
  object_id :: int
  id_num :: int
  sequence :: int
  ra :: real
  dec :: real
  mag :: pyval
  obj_type :: string
  obj_catalog_code :: string
  logged :: bool
  names :: "string list"

section \<open>CatalogFilter\<close>

text \<open>
  The sky-position context: \<open>solution()\<close>, \<open>location()\<close> and \<open>datetime()\<close> of the
  shared state, each possibly \<open>None\<close>. Solution and location are dicts (an empty dict
  is falsy), the datetime is an object (always truthy when present). \<open>target\<close> is what
  \<open>ui_state().target()\<close> returns.
\<close>

type_synonym datetime = int

record shared =
  solution :: "(string \<times> real) list option"
  location :: "(string \<times> real) list option"
  datetime :: "datetime option"
  target :: obj

text \<open>\<open>calc_utils.FastAltAz(lat, lon, dt)\<close> is outside this module: the object records
  its constructor arguments, and its method \<open>radec_to_altaz(ra, dec, alt_only=True)\<close>,
  which returns a float, is a parameter \<open>altaz\<close> of the functions below.\<close>

datatype fast_altaz = FastAltAz real real datetime

record cfilter =
  magnitude_filter :: pyval
  type_filter :: "string list option"
  altitude_filter :: pyval
  observed_filter :: pyval
  fast_aa :: "fast_altaz option"

definition set_values :: "cfilter \<Rightarrow> pyval \<Rightarrow> string list option \<Rightarrow> pyval \<Rightarrow> pyval \<Rightarrow> cfilter" where
  "set_values f m t a ob =
     f\<lparr>magnitude_filter := m, type_filter := t, altitude_filter := a, observed_filter := ob\<rparr>"

text \<open>\<open>CatalogFilter()\<close>: every setting defaults to Python \<open>None\<close>; the class attribute
  \<open>fast_aa\<close> is \<open>None\<close>.\<close>

definition CatalogFilter_init :: cfilter where
  "CatalogFilter_init =
     \<lparr>magnitude_filter = PNone, type_filter = None, altitude_filter = PNone,
      observed_filter = PNone, fast_aa = None\<rparr>"

definition truthy_dict :: "('k \<times> 'v) list option \<Rightarrow> bool" where
  "truthy_dict d = (case d of None \<Rightarrow> False | Some kv \<Rightarrow> kv \<noteq> [])"

text \<open>\<open>calc_fast_aa\<close> stores the transform in \<open>self.fast_aa\<close> when the context is
  complete and only logs otherwise. It has no \<open>return\<close> statement: the second component
  is the value of the call, always \<open>None\<close>.\<close>

definition calc_fast_aa :: "cfilter \<Rightarrow> shared \<Rightarrow> error + (cfilter \<times> fast_altaz option)" where
  "calc_fast_aa f st =
     (if truthy_dict (location st) \<and> datetime st \<noteq> None \<and> truthy_dict (solution st) then
        (case (location st, datetime st) of
           (Some loc, Some dt) \<Rightarrow>
             bind (dict_get loc ''lat'') (\<lambda>lat.
             bind (dict_get loc ''lon'') (\<lambda>lon.
               Inr (f\<lparr>fast_aa := Some (FastAltAz lat lon dt)\<rparr>, None)))
         | _ \<Rightarrow> Inr (f, None))
      else Inr (f, None))"

text \<open>Ordering a float against a setting: defined for a number, \<open>TypeError\<close> for
  \<open>None\<close> or a string.\<close>

definition py_less :: "fl \<Rightarrow> pyval \<Rightarrow> error + bool" where
  "py_less x v = (case num_of v of Some y \<Rightarrow> Inr (fl_less x y) | None \<Rightarrow> Inl TypeError)"

definition py_ge :: "fl \<Rightarrow> pyval \<Rightarrow> error + bool" where
  "py_ge x v = (case num_of v of Some y \<Rightarrow> Inr (fl_ge x y) | None \<Rightarrow> Inl TypeError)"

text \<open>
  The built-in \<open>float\<close> is outside this module. Its two conversions are parameters:
  \<open>str_float\<close> reads a float literal (\<open>None\<close> when the string is not one, where
  \<open>float\<close> raises \<open>ValueError\<close>), and \<open>int_float\<close> gives the float nearest to an
  int (\<open>None\<close> when the int is too large for a float, where \<open>float\<close> raises
  \<open>OverflowError\<close>). \<open>float(None)\<close> raises \<open>TypeError\<close>.
\<close>

record conv =
  str_float :: "string \<Rightarrow> fl option"
  int_float :: "int \<Rightarrow> fl option"

definition py_float :: "conv \<Rightarrow> pyval \<Rightarrow> error + fl" where
  "py_float cv v =
     (case v of
        PNone \<Rightarrow> Inl TypeError
      | PStr s \<Rightarrow> (case str_float cv s of None \<Rightarrow> Inl ValueError | Some x \<Rightarrow> Inr x)
      | PInt i \<Rightarrow> (case int_float cv i of None \<Rightarrow> Inl OverflowError | Some x \<Rightarrow> Inr x)
      | PFloat x \<Rightarrow> Inr x)"

text \<open>\<open>try: obj_mag = float(obj.mag) except (ValueError, TypeError): obj_mag = 99\<close>.
  Any other exception of the conversion propagates.\<close>

definition obj_mag_of :: "conv \<Rightarrow> obj \<Rightarrow> error + fl" where
  "obj_mag_of cv ob =
     (case py_float cv (mag ob) of
        Inr x \<Rightarrow> Inr x
      | Inl e \<Rightarrow> (if e = ValueError \<or> e = TypeError then Inr (Finite 99) else Inl e))"

definition apply_filter ::
  "(fast_altaz \<Rightarrow> real \<Rightarrow> real \<Rightarrow> fl) \<Rightarrow> conv \<Rightarrow> cfilter \<Rightarrow> obj \<Rightarrow> error + bool" where
  "apply_filter altaz cv f ob =
     bind (case fast_aa f of
             Some aa \<Rightarrow>
               if altitude_filter f \<noteq> PStr ''None''
               then py_less (altaz aa (ra ob) (dec ob)) (altitude_filter f)
               else Inr False
           | None \<Rightarrow> Inr False)
     (\<lambda>too_low.
       if too_low then Inr False
       else
         bind (obj_mag_of cv ob) (\<lambda>obj_mag.
         bind (if magnitude_filter f \<noteq> PStr ''None''
               then py_ge obj_mag (magnitude_filter f) else Inr False)
         (\<lambda>too_faint.
           if too_faint then Inr False
           else
             bind (if type_filter f \<noteq> Some [''None'']
                   then (case type_filter f of
                           None \<Rightarrow> Inl TypeError
                         | Some ts \<Rightarrow> Inr (obj_type ob \<notin> set ts))
                   else Inr False)
             (\<lambda>wrong_type.
               if wrong_type then Inr False
               else if observed_filter f \<noteq> PStr ''Any''
                 then Inr ((observed_filter f = PStr ''Yes'') = logged ob)
                 else Inr True))))"

text \<open>The list comprehension \<open>[obj for obj in objects if p(obj)]\<close>, stopping at the
  first exception.\<close>

fun filter_list :: "('a \<Rightarrow> error + bool) \<Rightarrow> 'a list \<Rightarrow> error + 'a list" where
  "filter_list p [] = Inr []"
| "filter_list p (x # xs) =
     bind (p x) (\<lambda>keep. bind (filter_list p xs) (\<lambda>r. Inr (if keep then x # r else r)))"

text \<open>\<open>apply\<close>: \<open>self.fast_aa = self.calc_fast_aa(shared_state)\<close>, then the
  comprehension. Returns the kept objects and the filter as the call leaves it.\<close>

definition apply_cfilter ::
  "(fast_altaz \<Rightarrow> real \<Rightarrow> real \<Rightarrow> fl) \<Rightarrow> conv \<Rightarrow> cfilter \<Rightarrow> shared \<Rightarrow> obj list
     \<Rightarrow> error + (obj list \<times> cfilter)" where
  "apply_cfilter altaz cv f st objs =
     bind (calc_fast_aa f st) (\<lambda>(f1, returned).
       let f2 = f1\<lparr>fast_aa := returned\<rparr>
       in bind (filter_list (apply_filter altaz cv f2) objs) (\<lambda>kept. Inr (kept, f2)))"

section \<open>CatalogBase and Catalog\<close>

text \<open>
  Python lists are objects: \<open>self.objects\<close> is appended to and sorted in place, and
  \<open>Catalog.__init__\<close> stores the very same list in \<open>self.filtered_objects\<close>. The
  lists therefore live in a store, and a catalog holds their addresses. An address is a
  position in the store; allocation appends a cell.
\<close>

type_synonym addr = nat
type_synonym heap = "obj list list"

definition alloc :: "heap \<Rightarrow> obj list \<Rightarrow> addr \<times> heap" where
  "alloc h xs = (length h, h @ [xs])"

definition deref :: "heap \<Rightarrow> addr \<Rightarrow> obj list" where
  "deref h a = h ! a"

definition store :: "heap \<Rightarrow> addr \<Rightarrow> obj list \<Rightarrow> heap" where
  "store h a xs = h[a := xs]"

text \<open>The sort key: \<open>catalog_base_sequence_sort\<close> (the default) or
  \<open>catalog_base_id_sort\<close>.\<close>

datatype sort_fn = catalog_base_sequence_sort | catalog_base_id_sort

fun sort_key_of :: "sort_fn \<Rightarrow> obj \<Rightarrow> int" where
  "sort_key_of catalog_base_sequence_sort ob = sequence ob"
| "sort_key_of catalog_base_id_sort ob = id_num ob"

text \<open>
  One record serves \<open>CatalogBase\<close> and its subclass \<open>Catalog\<close>. An attribute that an
  instance does not have yet is \<open>None\<close>: \<open>id_to_pos\<close> and \<open>sequence_to_pos\<close> are only
  annotated in \<open>CatalogBase.__init__\<close> and exist from the first add on;
  \<open>catalog_filter\<close> and \<open>filtered_objects\<close> are assigned by \<open>Catalog.__init__\<close> only.
  \<open>last_filtered\<close> starts at the value of the class attribute, 0.
\<close>

record catalog =
  catalog_code :: string
  max_sequence :: int
  desc :: string
  sort_by :: sort_fn
  objects :: addr
  id_to_pos :: "(int \<times> nat) list option"
  sequence_to_pos :: "(int \<times> nat) list option"
  catalog_filter :: "cfilter option"
  filtered_objects :: "addr option"
  last_filtered :: real

text \<open>A dict comprehension \<open>{k: v for ...}\<close> over the pairs in order: a repeated key
  keeps its first position and takes the later value.\<close>

definition dict_of_pairs :: "('k \<times> 'v) list \<Rightarrow> ('k \<times> 'v) list" where
  "dict_of_pairs ps = fold (\<lambda>(k, v) d. AList.update k v d) ps []"

definition get_objects :: "catalog \<Rightarrow> addr" where
  "get_objects c = objects c"

definition get_count :: "catalog \<Rightarrow> heap \<Rightarrow> nat" where
  "get_count c h = length (deref h (objects c))"

text \<open>\<open>CatalogBase.__init__\<close>: a new empty list for \<open>self.objects\<close>; nothing else that
  a lookup could find is assigned.\<close>

definition CatalogBase_init :: "string \<Rightarrow> int \<Rightarrow> string \<Rightarrow> sort_fn \<Rightarrow> heap \<Rightarrow> catalog \<times> heap" where
  "CatalogBase_init code max_seq d srt h =
     (let (a, h') = alloc h []
      in (\<lparr>catalog_code = code, max_sequence = max_seq, desc = d, sort_by = srt,
           objects = a, id_to_pos = None, sequence_to_pos = None,
           catalog_filter = None, filtered_objects = None, last_filtered = 0\<rparr>, h'))"

text \<open>\<open>Catalog.__init__\<close>: the base initialiser with the default sort, a fresh
  \<open>CatalogFilter()\<close>, and \<open>self.filtered_objects = self.get_objects()\<close>.\<close>

definition Catalog_init :: "string \<Rightarrow> int \<Rightarrow> string \<Rightarrow> heap \<Rightarrow> catalog \<times> heap" where
  "Catalog_init code max_seq d h =
     (let (c, h') = CatalogBase_init code max_seq d catalog_base_sequence_sort h;
          c = c\<lparr>catalog_filter := Some CatalogFilter_init\<rparr>
      in (c\<lparr>filtered_objects := Some (get_objects c)\<rparr>, h'))"

text \<open>\<open>Catalog(code, max_sequence, desc, *extra)\<close>: the initialiser takes exactly three
  arguments; a call with surplus positional arguments raises \<open>TypeError\<close>.\<close>

definition Catalog_new :: "string \<Rightarrow> int \<Rightarrow> string \<Rightarrow> 'x list \<Rightarrow> heap \<Rightarrow> error + (catalog \<times> heap)" where
  "Catalog_new code max_seq d extra h =
     (if extra = [] then Inr (Catalog_init code max_seq d h) else Inl TypeError)"

definition add_object_raw :: "catalog \<Rightarrow> heap \<Rightarrow> obj \<Rightarrow> heap" where
  "add_object_raw c h ob = store h (objects c) (deref h (objects c) @ [ob])"

text \<open>\<open>list.sort(key=...)\<close> is stable and in place.\<close>

definition sort_objects :: "catalog \<Rightarrow> heap \<Rightarrow> heap" where
  "sort_objects c h = store h (objects c) (sort_key (sort_key_of (sort_by c)) (deref h (objects c)))"

text \<open>\<open>{key(obj): i for i, obj in enumerate(xs)}\<close>\<close>

definition pos_index :: "(obj \<Rightarrow> int) \<Rightarrow> obj list \<Rightarrow> (int \<times> nat) list" where
  "pos_index key xs = dict_of_pairs (map (\<lambda>(i, ob). (key ob, i)) (enumerate 0 xs))"

definition update_id_to_pos :: "catalog \<Rightarrow> heap \<Rightarrow> catalog" where
  "update_id_to_pos c h = c\<lparr>id_to_pos := Some (pos_index id_num (deref h (objects c)))\<rparr>"

definition update_sequence_to_pos :: "catalog \<Rightarrow> heap \<Rightarrow> catalog" where
  "update_sequence_to_pos c h = c\<lparr>sequence_to_pos := Some (pos_index sequence (deref h (objects c)))\<rparr>"

definition add_object :: "catalog \<Rightarrow> heap \<Rightarrow> obj \<Rightarrow> catalog \<times> heap" where
  "add_object c h ob =
     (let h1 = add_object_raw c h ob;
          h2 = sort_objects c h1;
          c1 = update_id_to_pos c h2;
          c2 = update_sequence_to_pos c1 h2
      in (c2, h2))"

definition add_objects :: "catalog \<Rightarrow> heap \<Rightarrow> obj list \<Rightarrow> catalog \<times> heap" where
  "add_objects c h obs =
     (let h1 = fold (\<lambda>ob hh. add_object_raw c hh ob) obs h;
          h2 = sort_objects c h1;
          c1 = update_id_to_pos c h2;
          c2 = update_sequence_to_pos c1 h2
      in (c2, h2))"

definition attr :: "'a option \<Rightarrow> error + 'a" where
  "attr v = (case v of None \<Rightarrow> Inl AttributeError | Some x \<Rightarrow> Inr x)"

definition get_object_by_id :: "catalog \<Rightarrow> heap \<Rightarrow> int \<Rightarrow> error + obj" where
  "get_object_by_id c h i =
     bind (attr (id_to_pos c)) (\<lambda>d.
     bind (dict_get d i) (\<lambda>pos. py_index (deref h (objects c)) (int pos)))"

definition get_object_by_sequence :: "catalog \<Rightarrow> heap \<Rightarrow> int \<Rightarrow> error + obj" where
  "get_object_by_sequence c h s =
     bind (attr (sequence_to_pos c)) (\<lambda>d.
     bind (dict_get d s) (\<lambda>pos. py_index (deref h (objects c)) (int pos)))"

text \<open>Reading \<open>self.filtered_objects\<close> on a \<open>Catalog\<close>: the list the instance
  attribute refers to; without an instance attribute the lookup finds the class
  attribute \<open>Catalog.filtered_objects\<close>, a list that is created empty and that nothing
  in the module mutates.\<close>

definition Catalog_filtered_objects :: "obj list" where
  "Catalog_filtered_objects = []"

definition read_filtered :: "heap \<Rightarrow> catalog \<Rightarrow> obj list" where
  "read_filtered h c =
     (case filtered_objects c of None \<Rightarrow> Catalog_filtered_objects | Some a \<Rightarrow> deref h a)"

text \<open>\<open>filter_objects\<close>: the filter result is a new list, stored in
  \<open>self.filtered_objects\<close>; \<open>now\<close> is the reading of \<open>time.time()\<close>.\<close>

definition filter_objects ::
  "(fast_altaz \<Rightarrow> real \<Rightarrow> real \<Rightarrow> fl) \<Rightarrow> conv \<Rightarrow> real \<Rightarrow> shared \<Rightarrow> catalog \<Rightarrow> heap
     \<Rightarrow> error + (catalog \<times> heap)" where
  "filter_objects altaz cv now st c h =
     bind (attr (catalog_filter c)) (\<lambda>flt.
     bind (apply_cfilter altaz cv flt st (deref h (get_objects c))) (\<lambda>(kept, f').
       let (a, h') = alloc h kept
       in Inr (c\<lparr>catalog_filter := Some f', filtered_objects := Some a, last_filtered := now\<rparr>, h')))"

definition get_filtered_count :: "catalog \<Rightarrow> heap \<Rightarrow> nat" where
  "get_filtered_count c h = length (read_filtered h c)"

text \<open>A sequence of add calls on one catalog.\<close>

datatype add_call = AddObject obj | AddObjects "obj list"

fun run_add :: "add_call \<Rightarrow> catalog \<times> heap \<Rightarrow> catalog \<times> heap" where
  "run_add (AddObject ob) (c, h) = add_object c h ob"
| "run_add (AddObjects obs) (c, h) = add_objects c h obs"

definition run_adds :: "add_call list \<Rightarrow> catalog \<times> heap \<Rightarrow> catalog \<times> heap" where
  "run_adds calls ch = fold run_add calls ch"

fun added :: "add_call \<Rightarrow> obj list" where
  "added (AddObject ob) = [ob]"
| "added (AddObjects obs) = obs"

section \<open>Catalogs (the registry)\<close>

text \<open>\<open>catalog_dict\<close> is the lazily built code-to-catalog dict; the empty dict is
  falsy, so \<open>get_dict\<close> rebuilds it whenever it is empty.\<close>

record registry =
  catalogs :: "catalog list"
  catalog_dict :: "(string \<times> catalog) list"

definition Catalogs_init :: "catalog list \<Rightarrow> registry" where
  "Catalogs_init cs = \<lparr>catalogs = cs, catalog_dict = []\<rparr>"

definition Catalogs_set :: "registry \<Rightarrow> catalog list \<Rightarrow> registry" where
  "Catalogs_set r cs = r\<lparr>catalogs := cs, catalog_dict := []\<rparr>"

definition get_dict :: "registry \<Rightarrow> (string \<times> catalog) list \<times> registry" where
  "get_dict r =
     (if catalog_dict r = [] then
        (let d = dict_of_pairs (map (\<lambda>c. (catalog_code c, c)) (catalogs r))
         in (d, r\<lparr>catalog_dict := d\<rparr>))
      else (catalog_dict r, r))"

definition Catalogs_add :: "registry \<Rightarrow> catalog \<Rightarrow> registry" where
  "Catalogs_add r c =
     (let (cd, r1) = get_dict r
      in if catalog_code c \<notin> set (map fst cd)
         then r1\<lparr>catalogs := catalogs r1 @ [c], catalog_dict := []\<rparr>
         else r1)"

definition get_names :: "registry \<Rightarrow> string list \<times> registry" where
  "get_names r = (let (d, r1) = get_dict r in (map fst d, r1))"

text \<open>Class \<open>Catalogs\<close> defines no method \<open>get\<close>: evaluating \<open>self.catalogs.get(key)\<close>
  raises \<open>AttributeError\<close>.\<close>

definition Catalogs_get :: "registry \<Rightarrow> string \<Rightarrow> error + catalog" where
  "Catalogs_get r key = Inl AttributeError"

text \<open>The cache is valid when it is empty or is the dict of the current list.\<close>

definition cache_valid :: "registry \<Rightarrow> bool" where
  "cache_valid r =
     (catalog_dict r = [] \<or> catalog_dict r = dict_of_pairs (map (\<lambda>c. (catalog_code c, c)) (catalogs r)))"

section \<open>CatalogTracker\<close>

text \<open>
  The tracker after construction. \<open>tracker_catalogs\<close> is the attribute \<open>catalogs\<close>.
  \<open>current_catalog\<close> refers to a Catalog of the registry; none of the operations below
  mutates a Catalog object, so the record holds the object it refers to.
\<close>

record tracker =
  shared_state :: shared
  tracker_catalogs :: registry
  designator_tracker :: "(string \<times> designator) list"
  object_tracker :: "(string \<times> int option) list"
  current_catalog :: catalog
  current_catalog_name :: string

definition tracker_names :: "tracker \<Rightarrow> string list \<times> tracker" where
  "tracker_names t =
     (let (ns, r) = get_names (tracker_catalogs t) in (ns, t\<lparr>tracker_catalogs := r\<rparr>))"

definition tracker_dict :: "tracker \<Rightarrow> (string \<times> catalog) list \<times> tracker" where
  "tracker_dict t =
     (let (d, r) = get_dict (tracker_catalogs t) in (d, t\<lparr>tracker_catalogs := r\<rparr>))"

text \<open>\<open>CatalogTracker.__init__\<close> (the configuration options, read only by \<open>filter\<close>,
  are left out): one designator per name, the first name made current, one empty slot
  per name. \<open>set_current_catalog\<close> is called here on a name taken from \<open>names()\<close>,
  which is in the dict, so it only looks the catalog up.\<close>

definition CatalogTracker_init :: "registry \<Rightarrow> shared \<Rightarrow> error + tracker" where
  "CatalogTracker_init reg st =
     (let (ns, r1) = get_names reg;
          (d, r2) = get_dict r1
      in bind (map_err (\<lambda>c. bind (dict_get d c)
                  (\<lambda>cat. Inr (c, CatalogDesignator_init c (max_sequence cat)))) ns) (\<lambda>designators.
         bind (py_index ns 0) (\<lambda>first_name.
         bind (dict_get d first_name) (\<lambda>cat.
           Inr \<lparr>shared_state = st, tracker_catalogs = r2,
                designator_tracker = dict_of_pairs designators,
                object_tracker = dict_of_pairs (map (\<lambda>c. (c, None)) ns),
                current_catalog = cat, current_catalog_name = first_name\<rparr>))))"

text \<open>\<open>get_designator(catalog_name=None)\<close>:
  \<open>catalog_name or self.current_catalog_name\<close>, then the dict lookup.\<close>

definition designator_key :: "tracker \<Rightarrow> string option \<Rightarrow> string" where
  "designator_key t cname =
     (case cname of
        None \<Rightarrow> current_catalog_name t
      | Some n \<Rightarrow> if n = [] then current_catalog_name t else n)"

definition get_designator :: "tracker \<Rightarrow> string option \<Rightarrow> error + designator" where
  "get_designator t cname = dict_get (designator_tracker t) (designator_key t cname)"

text \<open>A method call on the designator stored under a key mutates that object:
  the dict entry is replaced by the updated designator.\<close>

definition designator_set_number :: "tracker \<Rightarrow> string \<Rightarrow> int \<Rightarrow> error + tracker" where
  "designator_set_number t key n =
     bind (dict_get (designator_tracker t) key) (\<lambda>d.
       Inr (t\<lparr>designator_tracker := AList.update key (set_number d n) (designator_tracker t)\<rparr>))"

definition get_current_object :: "tracker \<Rightarrow> heap \<Rightarrow> error + obj option" where
  "get_current_object t h =
     bind (dict_get (object_tracker t) (current_catalog_name t)) (\<lambda>object_key.
       case object_key of
         None \<Rightarrow> Inr None
       | Some k \<Rightarrow> bind (get_object_by_sequence (current_catalog t) h k) (\<lambda>ob. Inr (Some ob)))"

text \<open>\<open>add_foreign_catalog\<close>: the \<open>print\<close> lines evaluate \<open>self.names()\<close>,
  \<open>self.get_current_object()\<close> and \<open>self.get_designator()\<close>, which may raise; then the
  catalog is constructed with four positional arguments, the last being the dict
  \<open>{1: ui_state.target()}\<close>.\<close>

definition add_foreign_catalog :: "tracker \<Rightarrow> heap \<Rightarrow> string \<Rightarrow> error + (tracker \<times> heap)" where
  "add_foreign_catalog t h cname =
     (let ui_target = target (shared_state t);
          (ns, t1) = tracker_names t
      in bind (get_current_object t1 h) (\<lambda>_.
         bind (get_designator t1 None) (\<lambda>_.
         bind (Catalog_new ''PUSH'' 1 ''Skysafari push'' [[(1::int, ui_target)]] h) (\<lambda>(c, h1).
           let t2 = t1\<lparr>tracker_catalogs := Catalogs_add (tracker_catalogs t1) c\<rparr>;
               t3 = t2\<lparr>designator_tracker :=
                        AList.update cname (CatalogDesignator_init cname 1)
                          (designator_tracker t2)\<rparr>;
               t4 = t3\<lparr>object_tracker := AList.update cname None (object_tracker t3)\<rparr>
           in Inr (t4, h1)))))"

definition set_current_catalog :: "tracker \<Rightarrow> heap \<Rightarrow> string \<Rightarrow> error + (tracker \<times> heap)" where
  "set_current_catalog t h cname =
     (let (d, t1) = tracker_dict t
      in bind (if cname \<notin> set (map fst d)
               then add_foreign_catalog t1 h cname else Inr (t1, h)) (\<lambda>(t2, h2).
           let (d2, t3) = tracker_dict t2
           in if cname \<notin> set (map fst d2) then Inl AssertionError
              else
                (let (d3, t4) = tracker_dict t3
                 in bind (dict_get d3 cname) (\<lambda>c.
                      Inr (t4\<lparr>current_catalog := c, current_catalog_name := cname\<rparr>, h2)))))"

text \<open>\<open>set_current_object(object_number, catalog_name=None)\<close>. Only \<open>AssertionError\<close>
  is caught around \<open>set_current_catalog\<close>.\<close>

definition set_current_object ::
  "tracker \<Rightarrow> heap \<Rightarrow> int option \<Rightarrow> string option \<Rightarrow> error + (tracker \<times> heap)" where
  "set_current_object t h obj_number cname =
     (let store_number = (\<lambda>t' h' name.
            let t1 = t'\<lparr>object_tracker := AList.update name obj_number (object_tracker t')\<rparr>
            in bind (designator_set_number t1 name
                       (case obj_number of None \<Rightarrow> 0 | Some n \<Rightarrow> if n \<noteq> 0 then n else 0))
                 (\<lambda>t2. Inr (t2, h')))
      in case cname of
           Some name \<Rightarrow>
             (case set_current_catalog t h name of
                Inr (t1, h1) \<Rightarrow> store_number t1 h1 name
              | Inl e \<Rightarrow>
                  if e = AssertionError
                  then bind (designator_set_number t (current_catalog_name t) 0) (\<lambda>t1. Inr (t1, h))
                  else Inl e)
         | None \<Rightarrow> store_number t h (current_catalog_name t))"

text \<open>\<open>next_object(direction=1, filtered=True)\<close>. The \<open>if\<close>/\<open>else\<close> of the method,
  which picks \<open>next_key\<close> and sets the designator, is \<open>next_object_branch\<close>.\<close>

definition next_object_branch ::
  "tracker \<Rightarrow> string \<Rightarrow> int list \<Rightarrow> int option \<Rightarrow> int \<Rightarrow> error + (int option \<times> tracker)" where
  "next_object_branch t name object_ids current_key direction =
     (let jump =
            (let next_index = (if direction = 1 then 0 else int (length object_ids) - 1)
             in bind (py_index object_ids next_index) (\<lambda>next_key.
                bind (designator_set_number t name next_key) (\<lambda>t1. Inr (Some next_key, t1))))
      in case current_key of
           None \<Rightarrow> jump
         | Some key \<Rightarrow>
             if key \<notin> set object_ids then jump
             else
               bind (list_index object_ids key) (\<lambda>current_index.
                 let next_index = int current_index + direction
                 in if next_index = -1 \<or> next_index \<ge> int (length object_ids) then
                      bind (designator_set_number t name 0) (\<lambda>t1. Inr (None, t1))
                    else
                      bind (py_index object_ids (next_index mod int (length object_ids)))
                        (\<lambda>next_key.
                      bind (designator_set_number t name next_key)
                        (\<lambda>t1. Inr (Some next_key, t1)))))"

definition next_object :: "tracker \<Rightarrow> heap \<Rightarrow> int \<Rightarrow> bool \<Rightarrow> error + (obj option \<times> tracker \<times> heap)" where
  "next_object t h direction filtered =
     (let objs = (if filtered then read_filtered h (current_catalog t)
                  else deref h (get_objects (current_catalog t)));
          object_ids = map sequence objs
      in bind (dict_get (object_tracker t) (current_catalog_name t)) (\<lambda>current_key.
         bind (get_designator t None) (\<lambda>_.
         bind (next_object_branch t (designator_key t None) object_ids current_key direction)
           (\<lambda>(next_key, t1).
              bind (set_current_object t1 h next_key None) (\<lambda>(t2, h2).
              bind (get_current_object t2 h2) (\<lambda>res. Inr (res, t2, h2)))))))"

text \<open>A Python list has no method \<open>values\<close>.\<close>

definition list_values :: "'a list \<Rightarrow> error + 'a list" where
  "list_values xs = Inl AttributeError"

definition select_catalogs :: "tracker \<Rightarrow> string list option \<Rightarrow> error + catalog list" where
  "select_catalogs t cats =
     (case cats of
        None \<Rightarrow> Inr [current_catalog t]
      | Some keys \<Rightarrow> map_err (Catalogs_get (tracker_catalogs t)) keys)"

text \<open>\<open>_deduplicate\<close>: \<open>next(...)\<close> over the generator is the first position whose
  entry has the object id, \<open>StopIteration\<close> when there is none.\<close>

fun first_index :: "('a \<Rightarrow> bool) \<Rightarrow> 'a list \<Rightarrow> error + nat" where
  "first_index p [] = Inl StopIteration"
| "first_index p (x # xs) = (if p x then Inr 0 else bind (first_index p xs) (\<lambda>i. Inr (Suc i)))"

fun deduplicate_loop :: "obj list \<Rightarrow> obj list \<Rightarrow> int set \<Rightarrow> error + obj list" where
  "deduplicate_loop [] deduplicated_results seen_ids = Inr deduplicated_results"
| "deduplicate_loop (ob # rest) deduplicated_results seen_ids =
     (if object_id ob \<notin> seen_ids then
        deduplicate_loop rest (deduplicated_results @ [ob]) (insert (object_id ob) seen_ids)
      else
        bind (first_index (\<lambda>existing_obj. object_id existing_obj = object_id ob) deduplicated_results)
          (\<lambda>existing_obj_index.
            bind (py_index deduplicated_results (int existing_obj_index)) (\<lambda>existing_obj.
              if (obj_catalog_code ob = ''M'' \<and> obj_catalog_code existing_obj \<noteq> ''M'')
                 \<or> (obj_catalog_code ob = ''NGC''
                     \<and> obj_catalog_code existing_obj \<notin> set [''M'', ''NGC''])
              then deduplicate_loop rest (deduplicated_results[existing_obj_index := ob]) seen_ids
              else deduplicate_loop rest deduplicated_results seen_ids)))"

definition deduplicate :: "obj list \<Rightarrow> error + obj list" where
  "deduplicate unfiltered_results = deduplicate_loop unfiltered_results [] {}"

text \<open>\<open>get_closest_objects\<close>: \<open>deg2rad\<close> is \<open>np.deg2rad\<close>, and \<open>balltree_query\<close>
  stands for building the \<open>BallTree\<close> over the points and querying the \<open>k\<close> nearest
  (the positions of the neighbours, nearest first).\<close>

definition get_closest_objects ::
  "(real \<Rightarrow> real) \<Rightarrow> ((real \<times> real) list \<Rightarrow> real \<times> real \<Rightarrow> int \<Rightarrow> error + int list)
     \<Rightarrow> tracker \<Rightarrow> heap \<Rightarrow> real \<Rightarrow> real \<Rightarrow> int \<Rightarrow> string list option \<Rightarrow> error + obj list" where
  "get_closest_objects deg2rad balltree_query t h ra0 dec0 n cats =
     bind (select_catalogs t cats) (\<lambda>catalog_list.
     bind (map_err (\<lambda>c. list_values (read_filtered h c)) catalog_list) (\<lambda>per_catalog.
       let catalog_list_flat = concat per_catalog;
           n = (if int (length catalog_list_flat) < n then int (length catalog_list_flat) else n);
           object_radecs = map (\<lambda>x. (deg2rad (ra x), deg2rad (dec x))) catalog_list_flat
       in bind (balltree_query object_radecs (deg2rad ra0, deg2rad dec0) n) (\<lambda>obj_ind.
          bind (map_err (py_index catalog_list_flat) obj_ind) (\<lambda>results.
            deduplicate results))))"

section \<open>Specification-side definitions\<close>

text \<open>The number of decimal digits of a natural number, and of an integer without
  its sign.\<close>

fun nat_digits :: "nat \<Rightarrow> nat" where
  "nat_digits n = (if n < 10 then 1 else Suc (nat_digits (n div 10)))"

declare nat_digits.simps [simp del]

definition decimal_digits :: "int \<Rightarrow> nat" where
  "decimal_digits m = nat_digits (nat \<bar>m\<bar>)"

text \<open>The object ids of a ranked list in the order of their first occurrence.\<close>

definition first_ids :: "obj list \<Rightarrow> int list" where
  "first_ids xs = rev (remdups (rev (map object_id xs)))"

text \<open>Catalog precedence between the entry kept so far and a later duplicate: a later
  \<open>M\<close> replaces a kept entry that is not \<open>M\<close>; a later \<open>NGC\<close> replaces a kept entry that
  is neither \<open>M\<close> nor \<open>NGC\<close>; any other later duplicate is discarded.\<close>

definition precedence :: "obj \<Rightarrow> obj \<Rightarrow> obj" where
  "precedence kept later =
     (if obj_catalog_code later = ''M'' \<and> obj_catalog_code kept \<noteq> ''M'' then later
      else if obj_catalog_code later = ''NGC'' \<and> obj_catalog_code kept \<noteq> ''M''
              \<and> obj_catalog_code kept \<noteq> ''NGC'' then later
      else kept)"

text \<open>The entry kept for an object id: its occurrences in ranked order, the first
  one kept and every later one weighed against the kept entry by the precedence
  (\<open>None\<close> for an id that does not occur).\<close>

definition kept_entry :: "obj list \<Rightarrow> int \<Rightarrow> obj option" where
  "kept_entry xs i =
     foldl (\<lambda>k x. if object_id x = i
                    then Some (case k of None \<Rightarrow> x | Some y \<Rightarrow> precedence y x) else k) None xs"

definition deduplicate_spec :: "obj list \<Rightarrow> obj list" where
  "deduplicate_spec xs = List.map_filter (kept_entry xs) (first_ids xs)"

section \<open>Observations on the tracker\<close>

text \<open>The list \<open>next_object\<close> steps through, the full list of the current catalog, the
  tracked sequence of the current catalog (\<open>None\<close> when the slot is missing,
  \<open>Some None\<close> when no object is tracked), and the number its designator shows.\<close>

definition active_list :: "tracker \<Rightarrow> heap \<Rightarrow> bool \<Rightarrow> obj list" where
  "active_list t h filtered =
     (if filtered then read_filtered h (current_catalog t)
      else deref h (objects (current_catalog t)))"

definition all_objects :: "tracker \<Rightarrow> heap \<Rightarrow> obj list" where
  "all_objects t h = deref h (objects (current_catalog t))"

definition tracked :: "tracker \<Rightarrow> int option option" where
  "tracked t = map_of (object_tracker t) (current_catalog_name t)"

definition shown_number :: "tracker \<Rightarrow> int option" where
  "shown_number t = map_option object_number (map_of (designator_tracker t) (current_catalog_name t))"

text \<open>The sequence index of the current catalog is the one the last add built from its
  object list.\<close>

definition index_current :: "tracker \<Rightarrow> heap \<Rightarrow> bool" where
  "index_current t h \<longleftrightarrow>
     sequence_to_pos (current_catalog t) = Some (pos_index sequence (all_objects t h))"

text \<open>The key that \<open>next_object\<close> moves to, as a function of the sequences of the
  active list, the tracked key and the direction: the branch structure of the method
  without its updates of the designator.\<close>

definition next_key_of :: "int list \<Rightarrow> int option \<Rightarrow> int \<Rightarrow> error + int option" where
  "next_key_of ids key direction =
     (let jump = bind (py_index ids (if direction = 1 then 0 else int (length ids) - 1))
                   (\<lambda>k. Inr (Some k))
      in case key of
           None \<Rightarrow> jump
         | Some k \<Rightarrow>
             if k \<notin> set ids then jump
             else bind (list_index ids k) (\<lambda>current_index.
                    let next_index = int current_index + direction
                    in if next_index = -1 \<or> next_index \<ge> int (length ids) then Inr None
                       else bind (py_index ids (next_index mod int (length ids)))
                              (\<lambda>k'. Inr (Some k'))))"

section \<open>Sample data\<close>

text \<open>Small concrete objects, catalogs and trackers on which the theorems are
  instantiated.\<close>

definition sample_obj :: "int \<Rightarrow> int \<Rightarrow> string \<Rightarrow> obj" where
  "sample_obj oid seq code =
     \<lparr>object_id = oid, id_num = oid, sequence = seq, ra = 0, dec = 0, mag = PFloat (Finite 8),
      obj_type = ''Gx'', obj_catalog_code = code, logged = False, names = []\<rparr>"

definition sample_catalog :: "string \<Rightarrow> int \<Rightarrow> addr \<Rightarrow> catalog" where
  "sample_catalog code max_seq a =
     \<lparr>catalog_code = code, max_sequence = max_seq, desc = [], sort_by = catalog_base_sequence_sort,
      objects = a, id_to_pos = None, sequence_to_pos = None,
      catalog_filter = Some CatalogFilter_init, filtered_objects = Some a, last_filtered = 0\<rparr>"

text \<open>A tracker on one catalog \<open>NGC\<close> whose list (at address 0) holds the sequences 5, 12
  and 47, with the given tracked sequence.\<close>

definition sample_objects :: "obj list" where
  "sample_objects = [sample_obj 1 5 ''NGC'', sample_obj 2 12 ''NGC'', sample_obj 3 47 ''NGC'']"

definition sample_shared :: shared where
  "sample_shared =
     \<lparr>solution = Some [(''RA'', 10)], location = Some [(''lat'', 50), (''lon'', 4)],
      datetime = Some 0, target = sample_obj 0 1 ''PUSH''\<rparr>"

definition sample_indexed_catalog :: catalog where
  "sample_indexed_catalog =
     (sample_catalog ''NGC'' 7840 0)
       \<lparr>id_to_pos := Some (pos_index id_num sample_objects),
        sequence_to_pos := Some (pos_index sequence sample_objects)\<rparr>"

definition sample_tracker :: "int option \<Rightarrow> tracker" where
  "sample_tracker key =
     \<lparr>shared_state = sample_shared,
      tracker_catalogs = Catalogs_init [sample_indexed_catalog],
      designator_tracker = [(''NGC'', CatalogDesignator_init ''NGC'' 7840)],
      object_tracker = [(''NGC'', key)],
      current_catalog = sample_indexed_catalog,
      current_catalog_name = ''NGC''\<rparr>"

definition sample_heap :: heap where
  "sample_heap = [sample_objects]"

text \<open>A filter with an altitude floor of 10 degrees and every other check disabled.\<close>

definition sample_filter :: cfilter where
  "sample_filter =
     \<lparr>magnitude_filter = PStr ''None'', type_filter = Some [''None''], altitude_filter = PInt 10,
      observed_filter = PStr ''Any'', fast_aa = None\<rparr>"


text \<open>Conversions for the samples: no string is a float literal, and an int converts
  to the float of its value (rounding left out) unless its magnitude reaches
  \<open>float_limit\<close>, which is \<open>2 ** 1024\<close>, above the largest float.\<close>

definition float_limit :: int where
  "float_limit = 2 ^ 1024"

definition sample_conv :: conv where
  "sample_conv =
     \<lparr>str_float = (\<lambda>s. None),
      int_float = (\<lambda>i. if \<bar>i\<bar> < float_limit then Some (Finite (real_of_int i)) else None)\<rparr>"

section \<open>Decimal strings\<close>

lemma str_nat_small: "n < 10 \<Longrightarrow> str_nat n = [digit_char n]"
  by (simp add: str_nat.simps)

lemma str_nat_large: "\<not> n < 10 \<Longrightarrow> str_nat n = str_nat (n div 10) @ [digit_char (n mod 10)]"
  by (subst str_nat.simps) simp

lemma digit_val_digit_char: "d < 10 \<Longrightarrow> digit_val (digit_char d) = Some d"
proof -
  assume "d < 10"
  then consider "d = 0" | "d = 1" | "d = 2" | "d = 3" | "d = 4" | "d = 5" | "d = 6"
    | "d = 7" | "d = 8" | "d = 9" by atomize_elim arith
  then show ?thesis
    by cases (simp_all add: digit_char_def digit_val_def)
qed

lemma digit_val_bound: "digit_val c = Some d \<Longrightarrow> d < 10"
  by (auto simp: digit_val_def Let_def split: if_splits)

lemma digits_val_append:
  "digits_val acc (xs @ ys) = (case digits_val acc xs of None \<Rightarrow> None | Some v \<Rightarrow> digits_val v ys)"
  by (induction xs arbitrary: acc) (auto split: option.splits)

lemma digits_val_acc:
  "digits_val acc s = map_option (\<lambda>v. acc * 10 ^ length s + v) (digits_val 0 s)"
proof (induction s arbitrary: acc)
  case Nil
  then show ?case by simp
next
  case (Cons c cs)
  show ?case
  proof (cases "digit_val c")
    case None
    then show ?thesis by simp
  next
    case (Some d)
    have "digits_val acc (c # cs) = digits_val (10 * acc + d) cs" using Some by simp
    also have "\<dots> = map_option (\<lambda>v. (10 * acc + d) * 10 ^ length cs + v) (digits_val 0 cs)"
      by (rule Cons.IH)
    finally have l: "digits_val acc (c # cs) =
        map_option (\<lambda>v. (10 * acc + d) * 10 ^ length cs + v) (digits_val 0 cs)" .
    have "digits_val 0 (c # cs) = digits_val d cs" using Some by simp
    also have "\<dots> = map_option (\<lambda>v. d * 10 ^ length cs + v) (digits_val 0 cs)"
      by (rule Cons.IH)
    finally have r: "digits_val 0 (c # cs) = map_option (\<lambda>v. d * 10 ^ length cs + v) (digits_val 0 cs)" .
    show ?thesis unfolding l r
      by (cases "digits_val 0 cs") (simp_all add: algebra_simps)
  qed
qed

lemma digits_val_less: "digits_val 0 s = Some v \<Longrightarrow> v < 10 ^ length s"
proof (induction s arbitrary: v)
  case Nil
  then show ?case by simp
next
  case (Cons c cs)
  from Cons.prems obtain d where d: "digit_val c = Some d" and r: "digits_val d cs = Some v"
    by (auto split: option.splits)
  from r obtain v0 where v0: "digits_val 0 cs = Some v0" and v: "v = d * 10 ^ length cs + v0"
    by (subst (asm) digits_val_acc) auto
  have "v0 < 10 ^ length cs" by (rule Cons.IH [OF v0])
  moreover have "d \<le> 9" using digit_val_bound [OF d] by simp
  then have "d * 10 ^ length cs \<le> 9 * 10 ^ length cs" by (rule mult_le_mono1)
  ultimately have "d * 10 ^ length cs + v0 < 9 * 10 ^ length cs + 10 ^ length cs"
    by (rule add_le_less_mono [rotated])
  then show ?case using v by simp
qed

lemma digits_val_str_nat: "digits_val acc (str_nat n) = Some (acc * 10 ^ length (str_nat n) + n)"
proof (induction n arbitrary: acc rule: str_nat.induct)
  case (1 n)
  show ?case
  proof (cases "n < 10")
    case True
    then show ?thesis by (simp add: str_nat_small digit_val_digit_char)
  next
    case False
    have "digits_val acc (str_nat n) =
        digits_val (acc * 10 ^ length (str_nat (n div 10)) + n div 10) [digit_char (n mod 10)]"
      using False 1 by (simp add: str_nat_large digits_val_append)
    then show ?thesis using False
      by (simp add: digit_val_digit_char str_nat_large algebra_simps)
  qed
qed

lemma str_nat_not_Nil: "str_nat n \<noteq> []"
  by (cases "n < 10") (simp_all add: str_nat_small str_nat_large)

lemma str_nat_upper: "n < 10 ^ length (str_nat n)"
  using digits_val_less [of "str_nat n" n] digits_val_str_nat [of 0 n] by simp

lemma str_nat_lower: "\<not> n < 10 \<Longrightarrow> 10 ^ (length (str_nat n) - 1) \<le> n"
proof (induction n rule: str_nat.induct)
  case (1 n)
  show ?case
  proof (cases "n div 10 < 10")
    case True
    then show ?thesis using "1.prems" by (simp add: str_nat_large [of n] str_nat_small)
  next
    case False
    have "10 ^ (length (str_nat (n div 10)) - 1) \<le> n div 10"
      using "1.IH" "1.prems" False by simp
    then have "10 * 10 ^ (length (str_nat (n div 10)) - 1) \<le> n" by simp
    moreover have "length (str_nat (n div 10)) > 0" using str_nat_not_Nil by simp
    then have "(10::nat) * 10 ^ (length (str_nat (n div 10)) - 1) = 10 ^ length (str_nat (n div 10))"
      by (cases "length (str_nat (n div 10))") simp_all
    ultimately show ?thesis using "1.prems" by (simp add: str_nat_large [of n])
  qed
qed

lemma length_str_nat_le: "n < 10 ^ k \<Longrightarrow> 0 < k \<Longrightarrow> length (str_nat n) \<le> k"
proof (cases "n < 10")
  case True
  assume "0 < k" then show ?thesis using True by (simp add: str_nat_small)
next
  case False
  assume a: "n < 10 ^ k"
  have "(10::nat) ^ (length (str_nat n) - 1) < 10 ^ k"
    by (rule le_less_trans [OF str_nat_lower [OF False] a])
  then have "length (str_nat n) - 1 < k" by simp
  then show ?thesis by simp
qed

lemma int_of_str_digits: "digits_val 0 s = Some v \<Longrightarrow> s \<noteq> [] \<Longrightarrow> int_of_str s = Inr (int v)"
  by (cases s) (auto simp: int_of_str_def digit_val_def Let_def split: option.splits)

section \<open>The designator as a sliding window of digits\<close>


lemma str_int_nonneg: "0 \<le> i \<Longrightarrow> str_int i = str_nat (nat i)"
  by (simp add: str_int_def)

lemma append_number_step:
  assumes n: "object_number d = int N" and N: "N < 10 ^ width d" and w: "0 < width d"
    and x: "0 \<le> x" "x \<le> 9"
  shows "append_number d x =
     Inr (refresh_field (d\<lparr>object_number := (10 * int N + x) mod 10 ^ width d\<rparr>))"
proof -
  define X where "X = nat x"
  have X: "X < 10" "x = int X" using x by (simp_all add: X_def)
  define s where "s = str_nat N"
  have sx: "str_int (object_number d) @ str_int x = s @ [digit_char X]"
    using n X by (simp add: str_int_nonneg s_def str_nat_small)
  have sN: "digits_val 0 s = Some N" unfolding s_def using digits_val_str_nat [of 0 N] by simp
  have sl: "length s \<le> width d" unfolding s_def using N w by (rule length_str_nat_le)
  have s0: "s \<noteq> []" unfolding s_def by (rule str_nat_not_Nil)
  have Nl: "N < 10 ^ length s" using digits_val_less [OF sN] .
  show ?thesis
  proof (cases "length s < width d")
    case True
    have "digits_val 0 (s @ [digit_char X]) = Some (10 * N + X)"
      using sN X by (simp add: digits_val_append digit_val_digit_char)
    then have p: "int_of_str (s @ [digit_char X]) = Inr (int (10 * N + X))"
      by (rule int_of_str_digits) simp
    have "10 * N + X < 10 * 10 ^ length s" using Nl X by simp
    also have "\<dots> = 10 ^ Suc (length s)" by simp
    also have "\<dots> \<le> 10 ^ width d" using True by (intro power_increasing) simp_all
    finally have "10 * N + X < 10 ^ width d" .
    then have "int (10 * N + X) < 10 ^ width d"
      by (metis of_nat_less_iff of_nat_numeral of_nat_power)
    then have "(10 * int N + x) mod 10 ^ width d = int (10 * N + X)"
      using X by simp
    then show ?thesis using True p sx
      by (simp add: append_number_def bind_def get_catalog_width_def)
  next
    case False
    with sl have len: "length s = width d" by simp
    obtain c r where cr: "s = c # r" using s0 by (cases s) auto
    from sN cr obtain dc where dc: "digit_val c = Some dc" and rr: "digits_val dc r = Some N"
      by (auto split: option.splits)
    from rr obtain v0 where v0: "digits_val 0 r = Some v0" and Nv: "N = dc * 10 ^ length r + v0"
      by (subst (asm) digits_val_acc) auto
    have v0l: "v0 < 10 ^ length r" using digits_val_less [OF v0] .
    have "digits_val 0 (r @ [digit_char X]) = Some (10 * v0 + X)"
      using v0 X by (simp add: digits_val_append digit_val_digit_char)
    then have p: "int_of_str (tl (s @ [digit_char X])) = Inr (int (10 * v0 + X))"
      using cr int_of_str_digits [of "r @ [digit_char X]"] by simp
    have wr: "width d = Suc (length r)" using len cr by simp
    have b: "10 * v0 + X < 10 ^ width d" using v0l X wr by simp
    have "10 * N + X = dc * 10 ^ width d + (10 * v0 + X)"
      using Nv wr by (simp add: algebra_simps)
    then have "(10 * N + X) mod 10 ^ width d = (dc * 10 ^ width d + (10 * v0 + X)) mod 10 ^ width d"
      by (simp only:)
    also have "\<dots> = (10 * v0 + X) mod 10 ^ width d" by (rule mod_mult_self3)
    also have "\<dots> = 10 * v0 + X" using b by (rule mod_less)
    finally have "(10 * N + X) mod 10 ^ width d = 10 * v0 + X" .
    then have "int ((10 * N + X) mod 10 ^ width d) = int (10 * v0 + X)" by simp
    then have "(10 * int N + x) mod 10 ^ width d = int (10 * v0 + X)"
      using X by (simp add: zmod_int)
    then show ?thesis using len p sx
      by (simp add: append_number_def bind_def get_catalog_width_def)
  qed
qed

lemma decimal_fold_mod:
  "foldl (\<lambda>a x. 10 * a + x) (a mod m) ds mod m = foldl (\<lambda>a x. 10 * a + (x::int)) a ds mod m"
proof (induction ds arbitrary: a)
  case Nil
  then show ?case by simp
next
  case (Cons x xs)
  have "foldl (\<lambda>a x. 10 * a + x) (a mod m) (x # xs) mod m
      = foldl (\<lambda>a x. 10 * a + x) ((10 * (a mod m) + x) mod m) xs mod m"
    using Cons.IH [of "10 * (a mod m) + x"] by simp
  also have "(10 * (a mod m) + x) mod m = (10 * a + x) mod m"
    by (metis mod_add_left_eq mod_mult_right_eq)
  also have "foldl (\<lambda>a x. 10 * a + x) ((10 * a + x) mod m) xs mod m
      = foldl (\<lambda>a x. 10 * a + x) (10 * a + x) xs mod m"
    by (rule Cons.IH)
  finally show ?case by simp
qed

lemma append_numbers_value:
  assumes "object_number d = int N" and "N < 10 ^ width d" and "0 < width d"
    and "\<forall>x\<in>set ds. 0 \<le> x \<and> x \<le> 9"
  shows "\<exists>D. append_numbers d ds = Inr D \<and> width D = width d \<and> catalog_name D = catalog_name d
      \<and> object_number D = foldl (\<lambda>a x. 10 * a + x) (int N) ds mod 10 ^ width d"
  using assms
proof (induction ds arbitrary: d N)
  case Nil
  then show ?case
    by simp
next
  case (Cons x xs)
  define d' where "d' = refresh_field (d\<lparr>object_number := (10 * int N + x) mod 10 ^ width d\<rparr>)"
  have st: "append_number d x = Inr d'"
    unfolding d'_def using Cons.prems by (intro append_number_step) simp_all
  have wd: "width d' = width d" "catalog_name d' = catalog_name d"
    by (simp_all add: d'_def refresh_field_def)
  define N' where "N' = nat ((10 * int N + x) mod 10 ^ width d)"
  have nn: "0 \<le> (10 * int N + x) mod 10 ^ width d" by simp
  have lt: "(10 * int N + x) mod 10 ^ width d < 10 ^ width d" by simp
  have o: "object_number d' = int N'"
    using nn by (simp add: d'_def refresh_field_def N'_def)
  have "int N' < 10 ^ width d" using lt nn by (simp add: N'_def)
  then have b: "N' < 10 ^ width d'"
    unfolding wd by (metis of_nat_less_iff of_nat_numeral of_nat_power)
  have "\<exists>D. append_numbers d' xs = Inr D \<and> width D = width d' \<and> catalog_name D = catalog_name d'
      \<and> object_number D = foldl (\<lambda>a x. 10 * a + x) (int N') xs mod 10 ^ width d'"
    using o b Cons.prems by (intro Cons.IH) (simp_all add: wd)
  then obtain D where D: "append_numbers d' xs = Inr D" "width D = width d"
    "catalog_name D = catalog_name d"
    "object_number D = foldl (\<lambda>a x. 10 * a + x) (int N') xs mod 10 ^ width d"
    using wd by auto
  have "int N' = (10 * int N + x) mod 10 ^ width d" using nn by (simp add: N'_def)
  then have "object_number D = foldl (\<lambda>a x. 10 * a + x) (10 * int N + x) xs mod 10 ^ width d"
    using D(4) decimal_fold_mod [of "10 * int N + x" "10 ^ width d" xs] by simp
  then show ?case using st D by (simp add: bind_def)
qed

lemma init_fields:
  "width (CatalogDesignator_init name m) = length (str_int m)"
  "object_number (CatalogDesignator_init name m) = 0"
  "catalog_name (CatalogDesignator_init name m) = name"
  by (simp_all add: CatalogDesignator_init_def refresh_field_def)

lemma nat_digits_small: "n < 10 \<Longrightarrow> nat_digits n = 1"
  by (simp add: nat_digits.simps)

lemma nat_digits_large: "\<not> n < 10 \<Longrightarrow> nat_digits n = Suc (nat_digits (n div 10))"
  by (subst nat_digits.simps) simp

lemma length_str_nat: "length (str_nat n) = nat_digits n"
proof (induction n rule: str_nat.induct)
  case (1 n)
  show ?case
  proof (cases "n < 10")
    case True
    then show ?thesis by (simp add: str_nat_small nat_digits_small)
  next
    case False
    then show ?thesis using 1 by (simp add: str_nat_large nat_digits_large)
  qed
qed

lemma length_str_int: "length (str_int m) = decimal_digits m + (if m < 0 then 1 else 0)"
  by (simp add: str_int_def decimal_digits_def length_str_nat)

text \<open>\<open>decimal_digits\<close> is the digit count: the least positive number of digits that
  holds the magnitude.\<close>

lemma decimal_digits_bounds:
  "0 < decimal_digits m"
  "\<bar>m\<bar> < 10 ^ decimal_digits m"
  "\<bar>m\<bar> < 10 \<Longrightarrow> decimal_digits m = 1"
  "10 \<le> \<bar>m\<bar> \<Longrightarrow> 10 ^ (decimal_digits m - 1) \<le> \<bar>m\<bar>"
proof -
  define M where "M = nat \<bar>m\<bar>"
  have mM: "\<bar>m\<bar> = int M" by (simp add: M_def)
  have d: "decimal_digits m = length (str_nat M)"
    by (simp add: decimal_digits_def length_str_nat M_def)
  show "0 < decimal_digits m" using str_nat_not_Nil [of M] by (simp add: d)
  have "M < 10 ^ decimal_digits m" unfolding d by (rule str_nat_upper)
  then show "\<bar>m\<bar> < 10 ^ decimal_digits m"
    unfolding mM by (metis of_nat_less_iff of_nat_numeral of_nat_power)
  show "decimal_digits m = 1" if "\<bar>m\<bar> < 10"
  proof -
    have "M < 10" using that by (simp add: M_def)
    then show ?thesis by (simp add: d str_nat_small)
  qed
  show "10 ^ (decimal_digits m - 1) \<le> \<bar>m\<bar>" if "10 \<le> \<bar>m\<bar>"
  proof -
    have "\<not> M < 10" using that by (simp add: M_def)
    then have "10 ^ (decimal_digits m - 1) \<le> M" unfolding d by (rule str_nat_lower)
    then show ?thesis
      unfolding mM by (metis of_nat_le_iff of_nat_numeral of_nat_power)
  qed
qed

text \<open>
  Claim C6, as stated, fails for a negative \<open>max_sequence\<close>: the width is the length of
  \<open>str(max_sequence)\<close>, which counts the sign. For \<open>max_sequence = -5\<close> the width is 2
  and the number has one decimal digit.
\<close>

theorem designator_width_counts_sign:
  "width (CatalogDesignator_init ''X'' (- 5)) = 2 \<and> decimal_digits (- 5) = 1"
  by (simp add: init_fields str_int_def str_nat_small decimal_digits_def nat_digits_small)

text \<open>
  Claim C6, amended. For a designator built with \<open>max_sequence = m\<close>, the width is the
  length of \<open>str(m)\<close>: the number of decimal digits of \<open>m\<close>, and one more for the sign
  when \<open>m\<close> is negative (the digit count is positive, it is 1 below ten, and from ten on
  it is the \<open>k\<close> with \<open>10 ^ (k - 1) \<le> \<bar>m\<bar> < 10 ^ k\<close>). Any run of
  \<open>append_number(d)\<close> calls with single digits \<open>d\<close> succeeds, leaves the width as it
  is, and the stored number never prints with more than \<open>width\<close> digits: it is the
  decimal value of the digits keyed so far, reduced modulo \<open>10 ^ width\<close>, that is, the
  last \<open>width\<close> digits with the oldest ones dropped on the left.
\<close>

theorem designator_width_window:
  assumes ds: "\<forall>x\<in>set ds. 0 \<le> x \<and> x \<le> 9"
  shows "width (CatalogDesignator_init name m) = decimal_digits m + (if m < 0 then 1 else 0)
    \<and> 0 < decimal_digits m
    \<and> \<bar>m\<bar> < 10 ^ decimal_digits m
    \<and> (\<bar>m\<bar> < 10 \<longrightarrow> decimal_digits m = 1)
    \<and> (10 \<le> \<bar>m\<bar> \<longrightarrow> 10 ^ (decimal_digits m - 1) \<le> \<bar>m\<bar>)
    \<and> (\<exists>D. append_numbers (CatalogDesignator_init name m) ds = Inr D
          \<and> width D = width (CatalogDesignator_init name m)
          \<and> length (str_int (object_number D)) \<le> width D
          \<and> object_number D = decimal_value ds mod 10 ^ width D)"
proof -
  define D0 where "D0 = CatalogDesignator_init name m"
  have w: "width D0 = decimal_digits m + (if m < 0 then 1 else 0)"
    by (simp add: D0_def init_fields length_str_int)
  have pos: "0 < width D0" using decimal_digits_bounds(1) [of m] by (simp add: w)
  have "\<exists>D. append_numbers D0 ds = Inr D \<and> width D = width D0 \<and> catalog_name D = catalog_name D0
      \<and> object_number D = foldl (\<lambda>a x. 10 * a + x) (int 0) ds mod 10 ^ width D0"
    using pos ds by (intro append_numbers_value) (simp_all add: D0_def init_fields)
  then obtain D where D: "append_numbers D0 ds = Inr D" "width D = width D0"
    "object_number D = decimal_value ds mod 10 ^ width D0"
    by (auto simp: decimal_value_def)
  have nn: "0 \<le> object_number D" and lt: "object_number D < 10 ^ width D0"
    using D(3) by simp_all
  have "nat (object_number D) < 10 ^ width D0"
    using lt nn by (metis nat_less_iff of_nat_numeral of_nat_power)
  then have "length (str_nat (nat (object_number D))) \<le> width D0"
    using pos by (rule length_str_nat_le)
  then have l: "length (str_int (object_number D)) \<le> width D"
    using nn D(2) by (simp add: str_int_nonneg)
  have e: "\<exists>D. append_numbers D0 ds = Inr D \<and> width D = width D0
          \<and> length (str_int (object_number D)) \<le> width D
          \<and> object_number D = decimal_value ds mod 10 ^ width D"
    using D l by auto
  show ?thesis
    using w e decimal_digits_bounds [of m] unfolding D0_def by blast
qed

text \<open>With \<open>max_sequence = 9999\<close> the width is 4, and keying 1, 2, 3, 4, 5 leaves 2345;
  with \<open>max_sequence = 1\<close>, as for a pushed target, the width is 1.\<close>

theorem designator_width_window_witness:
  "set [1, 2, 3, 4, 5 :: int] \<subseteq> {0..9}
   \<and> decimal_digits 9999 = 4
   \<and> width (CatalogDesignator_init ''NGC'' 9999) = 4
   \<and> width (CatalogDesignator_init ''PUSH'' 1) = 1
   \<and> (\<exists>D. append_numbers (CatalogDesignator_init ''NGC'' 9999) [1, 2, 3, 4, 5] = Inr D
         \<and> object_number D = 2345)"
proof -
  have h: "\<forall>x\<in>set [1, 2, 3, 4, 5 :: int]. 0 \<le> x \<and> x \<le> 9" by simp
  have d: "decimal_digits 9999 = 4" "decimal_digits 1 = 1"
    by (simp_all add: decimal_digits_def nat_digits_small nat_digits_large)
  have v: "decimal_value [1, 2, 3, 4, 5] mod 10 ^ 4 = 2345"
    by (simp add: decimal_value_def)
  note a = designator_width_window [OF h, of "''NGC''" 9999]
  note b = designator_width_window [OF h, of "''PUSH''" 1]
  have w: "width (CatalogDesignator_init ''NGC'' 9999) = 4" using a d by simp
  have w1: "width (CatalogDesignator_init ''PUSH'' 1) = 1" using b d by simp
  have "\<exists>D. append_numbers (CatalogDesignator_init ''NGC'' 9999) [1, 2, 3, 4, 5] = Inr D
         \<and> object_number D = 2345"
    using a w v by auto
  then show ?thesis using d w w1 by simp
qed

section \<open>Dict comprehensions\<close>

lemma bind_Inr: "bind (Inr x) f = f x"
  by (simp add: bind_def)

lemma map_of_fold_update:
  "map_of (fold (\<lambda>(k, v) d. AList.update k v d) ps d0) = map_of (rev ps @ d0)"
proof (induction ps arbitrary: d0)
  case Nil
  then show ?case by simp
next
  case (Cons p ps)
  obtain k v where p: "p = (k, v)" by (cases p)
  have "map_of (AList.update k v d0) = map_of ((k, v) # d0)"
    by (rule ext) (simp add: update_conv')
  then have "map_of (rev ps @ AList.update k v d0) = map_of (rev ps @ (k, v) # d0)"
    by (simp add: map_of_append)
  then show ?case using Cons.IH [of "AList.update k v d0"] p by simp
qed

lemma map_of_dict_of_pairs: "map_of (dict_of_pairs ps) = map_of (rev ps)"
  by (simp add: dict_of_pairs_def map_of_fold_update)

lemma keys_dict_of_pairs: "fst ` set (dict_of_pairs ps) = fst ` set ps"
proof -
  have "dom (map_of (dict_of_pairs ps)) = dom (map_of (rev ps))"
    by (simp add: map_of_dict_of_pairs)
  then show ?thesis by (simp add: dom_map_of_conv_image_fst)
qed

lemma distinct_fold_update:
  "distinct (map fst d0) \<Longrightarrow> distinct (map fst (fold (\<lambda>(k, v) d. AList.update k v d) ps d0))"
  by (induction ps arbitrary: d0) (auto simp: distinct_update)

lemma distinct_dict_of_pairs: "distinct (map fst (dict_of_pairs ps))"
  by (simp add: dict_of_pairs_def distinct_fold_update)

lemma dict_of_pairs_Nil_iff: "dict_of_pairs ps = [] \<longleftrightarrow> ps = []"
proof
  assume "dict_of_pairs ps = []"
  then have "fst ` set ps = {}" using keys_dict_of_pairs [of ps] by simp
  then show "ps = []" by simp
qed (simp add: dict_of_pairs_def)


section \<open>Sample objects\<close>

lemma sample_obj_fields:
  "object_id (sample_obj i s k) = i" "id_num (sample_obj i s k) = i"
  "sequence (sample_obj i s k) = s" "obj_catalog_code (sample_obj i s k) = k"
  by (simp_all add: sample_obj_def)

section \<open>The registry and its cached dict\<close>

lemma get_dict_valid:
  "cache_valid r \<Longrightarrow> fst (get_dict r) = dict_of_pairs (map (\<lambda>c. (catalog_code c, c)) (catalogs r))"
  by (auto simp: cache_valid_def get_dict_def Let_def)

lemma get_dict_catalogs: "catalogs (snd (get_dict r)) = catalogs r"
  by (simp add: get_dict_def Let_def)

lemma get_dict_idem:
  "cache_valid r \<Longrightarrow> get_dict (snd (get_dict r)) = (fst (get_dict r), snd (get_dict r))"
  by (auto simp: cache_valid_def get_dict_def Let_def dict_of_pairs_Nil_iff)

lemma cache_valid_get_dict: "cache_valid r \<Longrightarrow> cache_valid (snd (get_dict r))"
  by (auto simp: cache_valid_def get_dict_def Let_def)

lemma cache_valid_init: "cache_valid (Catalogs_init cs)"
  by (simp add: cache_valid_def Catalogs_init_def)

lemma cache_valid_set: "cache_valid (Catalogs_set r cs)"
  by (simp add: cache_valid_def Catalogs_set_def)

lemma cache_valid_add: "cache_valid r \<Longrightarrow> cache_valid (Catalogs_add r c)"
  by (auto simp: Catalogs_add_def Let_def split_beta cache_valid_def get_dict_def)

lemma keys_code_dict:
  "fst ` set (dict_of_pairs (map (\<lambda>c. (catalog_code c, c)) cs)) = catalog_code ` set cs"
  by (simp add: keys_dict_of_pairs image_image)

text \<open>
  Claim C9. In a registry whose cache is valid (empty, or the dict of the current list; every
  operation of the class keeps it so), adding a catalog whose code is already registered
  leaves the registry exactly as a read of the dict leaves it: the catalog list and the
  code-to-catalog dict are unchanged. Adding a catalog with a new code appends it and
  clears the cached dict, so that the next read rebuilds it with the new code mapped to
  the new catalog.
\<close>

theorem catalogs_add_frame:
  assumes v: "cache_valid r"
  shows "(catalog_code c \<in> catalog_code ` set (catalogs r) \<longrightarrow>
            Catalogs_add r c = snd (get_dict r)
          \<and> catalogs (Catalogs_add r c) = catalogs r
          \<and> fst (get_dict (Catalogs_add r c)) = fst (get_dict r))
       \<and> (catalog_code c \<notin> catalog_code ` set (catalogs r) \<longrightarrow>
            catalogs (Catalogs_add r c) = catalogs r @ [c]
          \<and> catalog_dict (Catalogs_add r c) = []
          \<and> map_of (fst (get_dict (Catalogs_add r c))) (catalog_code c) = Some c
          \<and> set (map fst (fst (get_dict (Catalogs_add r c))))
               = insert (catalog_code c) (set (map fst (fst (get_dict r)))))"
proof -
  have keys: "set (map fst (fst (get_dict r))) = catalog_code ` set (catalogs r)"
    using get_dict_valid [OF v] by (simp add: keys_code_dict)
  have dup: "Catalogs_add r c = snd (get_dict r)"
    if "catalog_code c \<in> catalog_code ` set (catalogs r)"
    using that keys by (simp add: Catalogs_add_def split_beta)
  have new: "Catalogs_add r c = (snd (get_dict r))\<lparr>catalogs := catalogs r @ [c], catalog_dict := []\<rparr>"
    if "catalog_code c \<notin> catalog_code ` set (catalogs r)"
    using that keys by (simp add: Catalogs_add_def split_beta get_dict_catalogs)
  show ?thesis
  proof (intro conjI impI)
    assume a: "catalog_code c \<in> catalog_code ` set (catalogs r)"
    show "Catalogs_add r c = snd (get_dict r)" by (rule dup [OF a])
    show "catalogs (Catalogs_add r c) = catalogs r" by (simp add: dup [OF a] get_dict_catalogs)
    show "fst (get_dict (Catalogs_add r c)) = fst (get_dict r)"
      by (simp add: dup [OF a] get_dict_idem [OF v])
  next
    assume a: "catalog_code c \<notin> catalog_code ` set (catalogs r)"
    show "catalogs (Catalogs_add r c) = catalogs r @ [c]" by (simp add: new [OF a])
    show "catalog_dict (Catalogs_add r c) = []" by (simp add: new [OF a])
    have d: "fst (get_dict (Catalogs_add r c))
        = dict_of_pairs (map (\<lambda>c. (catalog_code c, c)) (catalogs r @ [c]))"
      by (simp add: new [OF a] get_dict_def Let_def)
    show "map_of (fst (get_dict (Catalogs_add r c))) (catalog_code c) = Some c"
      by (simp add: d map_of_dict_of_pairs)
    show "set (map fst (fst (get_dict (Catalogs_add r c))))
        = insert (catalog_code c) (set (map fst (fst (get_dict r))))"
      unfolding d keys by (simp add: keys_dict_of_pairs image_image)
  qed
qed

text \<open>A registry holding \<open>M\<close>: adding another \<open>M\<close> changes nothing, adding \<open>NGC\<close>
  appends it and clears the cache.\<close>

lemma sample_dict: "dict_of_pairs [(''M'', x)] = [(''M'', x)]"
  by (simp add: dict_of_pairs_def)

theorem catalogs_add_frame_witness:
  "cache_valid (Catalogs_init [sample_catalog ''M'' 110 0])
   \<and> catalogs (Catalogs_add (Catalogs_init [sample_catalog ''M'' 110 0]) (sample_catalog ''M'' 5 1))
       = [sample_catalog ''M'' 110 0]
   \<and> fst (get_dict (Catalogs_add (Catalogs_init [sample_catalog ''M'' 110 0]) (sample_catalog ''M'' 5 1)))
       = [(''M'', sample_catalog ''M'' 110 0)]
   \<and> catalogs (Catalogs_add (Catalogs_init [sample_catalog ''M'' 110 0]) (sample_catalog ''NGC'' 7840 1))
       = [sample_catalog ''M'' 110 0, sample_catalog ''NGC'' 7840 1]
   \<and> catalog_dict (Catalogs_add (Catalogs_init [sample_catalog ''M'' 110 0]) (sample_catalog ''NGC'' 7840 1))
       = []"
proof -
  have v: "cache_valid (Catalogs_init [sample_catalog ''M'' 110 0])" by (rule cache_valid_init)
  have g: "fst (get_dict (Catalogs_init [sample_catalog ''M'' 110 0])) = [(''M'', sample_catalog ''M'' 110 0)]"
    by (simp add: get_dict_def Catalogs_init_def Let_def sample_dict sample_catalog_def)
  have c: "catalogs (Catalogs_init [sample_catalog ''M'' 110 0]) = [sample_catalog ''M'' 110 0]"
    by (simp add: Catalogs_init_def)
  have m1: "catalog_code (sample_catalog ''M'' 5 1) \<in> catalog_code ` set [sample_catalog ''M'' 110 0]"
    by (simp add: sample_catalog_def)
  have m2: "catalog_code (sample_catalog ''NGC'' 7840 1) \<notin> catalog_code ` set [sample_catalog ''M'' 110 0]"
    by (simp add: sample_catalog_def)
  have dup: "catalogs (Catalogs_add (Catalogs_init [sample_catalog ''M'' 110 0]) (sample_catalog ''M'' 5 1))
        = catalogs (Catalogs_init [sample_catalog ''M'' 110 0])
      \<and> fst (get_dict (Catalogs_add (Catalogs_init [sample_catalog ''M'' 110 0]) (sample_catalog ''M'' 5 1)))
        = fst (get_dict (Catalogs_init [sample_catalog ''M'' 110 0]))"
    using catalogs_add_frame [OF v, of "sample_catalog ''M'' 5 1"] m1 unfolding c by blast
  have new: "catalogs (Catalogs_add (Catalogs_init [sample_catalog ''M'' 110 0]) (sample_catalog ''NGC'' 7840 1))
        = catalogs (Catalogs_init [sample_catalog ''M'' 110 0]) @ [sample_catalog ''NGC'' 7840 1]
      \<and> catalog_dict (Catalogs_add (Catalogs_init [sample_catalog ''M'' 110 0]) (sample_catalog ''NGC'' 7840 1))
        = []"
    using catalogs_add_frame [OF v, of "sample_catalog ''NGC'' 7840 1"] m2 unfolding c by blast
  show ?thesis using v dup new g c by simp
qed

section \<open>The catalog: object list and position indices\<close>

lemma deref_store_same: "a < length h \<Longrightarrow> deref (store h a xs) a = xs"
  by (simp add: deref_def store_def)

lemma length_store: "length (store h a xs) = length h"
  by (simp add: store_def)

lemma objects_fold_raw:
  "objects c < length h \<Longrightarrow>
   length (fold (\<lambda>ob hh. add_object_raw c hh ob) obs h) = length h
   \<and> deref (fold (\<lambda>ob hh. add_object_raw c hh ob) obs h) (objects c) = deref h (objects c) @ obs"
  by (induction obs arbitrary: h) (simp_all add: add_object_raw_def deref_store_same length_store)

text \<open>What the two add operations leave behind.\<close>

lemma add_objects_result:
  assumes "objects c < length h"
  shows "add_objects c h obs = (c', h') \<Longrightarrow>
     length h' = length h
   \<and> objects c' = objects c \<and> filtered_objects c' = filtered_objects c
   \<and> deref h' (objects c) = sort_key (sort_key_of (sort_by c)) (deref h (objects c) @ obs)
   \<and> id_to_pos c' = Some (pos_index id_num (deref h' (objects c)))
   \<and> sequence_to_pos c' = Some (pos_index sequence (deref h' (objects c)))"
  using objects_fold_raw [OF assms, of obs] assms
  by (auto simp: add_objects_def Let_def sort_objects_def update_id_to_pos_def
      update_sequence_to_pos_def deref_store_same length_store)

lemma add_object_as_add_objects: "add_object c h ob = add_objects c h [ob]"
  by (simp add: add_object_def add_objects_def)

lemma pos_index_lookup:
  assumes "map_of (pos_index key xs) k = Some p"
  shows "p < length xs \<and> key (xs ! p) = k"
proof -
  have "map_of (rev (map (\<lambda>(i, ob). (key ob, i)) (enumerate 0 xs))) k = Some p"
    using assms by (simp add: pos_index_def map_of_dict_of_pairs)
  then have "(k, p) \<in> set (map (\<lambda>(i, ob). (key ob, i)) (enumerate 0 xs))"
    using map_of_SomeD by fastforce
  then obtain ob where "(p, ob) \<in> set (enumerate 0 xs)" "key ob = k" by auto
  then show ?thesis by (auto simp: in_set_enumerate_eq)
qed

lemma pos_index_defined:
  assumes "x \<in> set xs"
  shows "\<exists>p. map_of (pos_index key xs) (key x) = Some p"
proof -
  obtain i where i: "i < length xs" "xs ! i = x" using assms by (auto simp: in_set_conv_nth)
  then have "(i, x) \<in> set (enumerate 0 xs)" by (auto simp: in_set_enumerate_eq)
  then have "key x \<in> fst ` set (map (\<lambda>(i, ob). (key ob, i)) (enumerate 0 xs))" by force
  then have "key x \<in> fst ` set (pos_index key xs)"
    by (simp only: pos_index_def keys_dict_of_pairs)
  then have "map_of (pos_index key xs) (key x) \<noteq> None"
    by (simp add: map_of_eq_None_iff)
  then show ?thesis by auto
qed

lemma lookup_by_key:
  assumes d: "distinct (map key xs)" and x: "x \<in> set xs"
  shows "bind (dict_get (pos_index key xs) (key x)) (\<lambda>pos. py_index xs (int pos)) = Inr x"
proof -
  obtain p where p: "map_of (pos_index key xs) (key x) = Some p"
    using pos_index_defined [OF x] by blast
  have pl: "p < length xs" and pk: "key (xs ! p) = key x"
    using pos_index_lookup [OF p] by simp_all
  have "xs ! p \<in> set xs" using pl by simp
  then have "xs ! p = x" using d x pk by (meson distinct_map inj_onD)
  then show ?thesis using p pl by (simp add: dict_get_def bind_def py_index_def)
qed

lemma run_add_result:
  assumes "objects c < length h" and "run_add call (c, h) = (c', h')"
  shows "length h' = length h
   \<and> objects c' = objects c \<and> filtered_objects c' = filtered_objects c
   \<and> deref h' (objects c) = sort_key (sort_key_of (sort_by c)) (deref h (objects c) @ added call)
   \<and> id_to_pos c' = Some (pos_index id_num (deref h' (objects c)))
   \<and> sequence_to_pos c' = Some (pos_index sequence (deref h' (objects c)))"
proof (cases call)
  case (AddObject ob)
  then have "add_objects c h [ob] = (c', h')" using assms(2) by (simp add: add_object_as_add_objects)
  then show ?thesis using add_objects_result [OF assms(1)] AddObject by simp
next
  case (AddObjects obs)
  then have "add_objects c h obs = (c', h')" using assms(2) by simp
  then show ?thesis using add_objects_result [OF assms(1)] AddObjects by simp
qed

text \<open>
  Claim C7. Take a catalog whose object list lives in the store, and any \<open>add_object\<close>
  or \<open>add_objects\<close> call on it. If afterwards the objects have pairwise distinct ids
  and pairwise distinct sequences, then for every object \<open>x\<close> in the catalog
  \<open>get_object_by_id(x.id)\<close> and \<open>get_object_by_sequence(x.sequence)\<close> both return
  \<open>x\<close>; the catalog holds the objects it held before and the added ones.
\<close>

theorem index_lookup_after_add:
  assumes live: "objects c < length h"
    and run: "run_add call (c, h) = (c', h')"
    and ids: "distinct (map id_num (deref h' (objects c')))"
    and seqs: "distinct (map sequence (deref h' (objects c')))"
    and x: "x \<in> set (deref h' (objects c'))"
  shows "get_object_by_id c' h' (id_num x) = Inr x
       \<and> get_object_by_sequence c' h' (sequence x) = Inr x
       \<and> set (deref h' (objects c')) = set (deref h (objects c)) \<union> set (added call)"
proof -
  note r = run_add_result [OF live run]
  have o: "objects c' = objects c" using r by simp
  have a: "get_object_by_id c' h' (id_num x) = Inr x"
    using lookup_by_key [OF ids x] r by (simp add: get_object_by_id_def attr_def bind_def o)
  have b: "get_object_by_sequence c' h' (sequence x) = Inr x"
    using lookup_by_key [OF seqs x] r by (simp add: get_object_by_sequence_def attr_def bind_def o)
  have "set (deref h' (objects c')) = set (deref h (objects c)) \<union> set (added call)"
    using r by (simp add: o)
  with a b show ?thesis by simp
qed

text \<open>Three objects added out of order to an empty catalog: the list is sorted by
  sequence and both lookups find the object with id 2 and sequence 12.\<close>

lemma sample_init: "Catalog_init ''NGC'' 7840 [] [] = (sample_catalog ''NGC'' 7840 0, [[]])"
  by (simp add: Catalog_init_def CatalogBase_init_def alloc_def sample_catalog_def get_objects_def)


theorem index_lookup_after_add_witness:
  "distinct (map id_num (deref
       (snd (run_add (AddObjects [sample_obj 3 47 ''NGC'', sample_obj 1 5 ''NGC'', sample_obj 2 12 ''NGC''])
              (sample_catalog ''NGC'' 7840 0, [[]])))
       (objects (fst (run_add (AddObjects [sample_obj 3 47 ''NGC'', sample_obj 1 5 ''NGC'', sample_obj 2 12 ''NGC''])
              (sample_catalog ''NGC'' 7840 0, [[]]))))))
   \<and> get_object_by_id
       (fst (run_add (AddObjects [sample_obj 3 47 ''NGC'', sample_obj 1 5 ''NGC'', sample_obj 2 12 ''NGC''])
              (sample_catalog ''NGC'' 7840 0, [[]])))
       (snd (run_add (AddObjects [sample_obj 3 47 ''NGC'', sample_obj 1 5 ''NGC'', sample_obj 2 12 ''NGC''])
              (sample_catalog ''NGC'' 7840 0, [[]])))
       2 = Inr (sample_obj 2 12 ''NGC'')
   \<and> get_object_by_sequence
       (fst (run_add (AddObjects [sample_obj 3 47 ''NGC'', sample_obj 1 5 ''NGC'', sample_obj 2 12 ''NGC''])
              (sample_catalog ''NGC'' 7840 0, [[]])))
       (snd (run_add (AddObjects [sample_obj 3 47 ''NGC'', sample_obj 1 5 ''NGC'', sample_obj 2 12 ''NGC''])
              (sample_catalog ''NGC'' 7840 0, [[]])))
       12 = Inr (sample_obj 2 12 ''NGC'')"
proof -
  define call where "call = AddObjects [sample_obj 3 47 ''NGC'', sample_obj 1 5 ''NGC'', sample_obj 2 12 ''NGC'']"
  define c where "c = sample_catalog ''NGC'' 7840 0"
  define h where "h = [[] :: obj list]"
  define c' where "c' = fst (run_add call (c, h))"
  define h' where "h' = snd (run_add call (c, h))"
  have live: "objects c < length h" by (simp add: c_def h_def sample_catalog_def)
  have run: "run_add call (c, h) = (c', h')" by (simp add: c'_def h'_def)
  note r = run_add_result [OF live run]
  have l: "deref h' (objects c') = [sample_obj 1 5 ''NGC'', sample_obj 2 12 ''NGC'', sample_obj 3 47 ''NGC'']"
    using r by (simp add: call_def c_def h_def sample_catalog_def deref_def sample_obj_fields)
  have ids: "distinct (map id_num (deref h' (objects c')))" by (simp add: l sample_obj_fields)
  have seqs: "distinct (map sequence (deref h' (objects c')))" by (simp add: l sample_obj_fields)
  have x: "sample_obj 2 12 ''NGC'' \<in> set (deref h' (objects c'))" by (simp add: l)
  have "get_object_by_id c' h' (id_num (sample_obj 2 12 ''NGC'')) = Inr (sample_obj 2 12 ''NGC'')
      \<and> get_object_by_sequence c' h' (sequence (sample_obj 2 12 ''NGC'')) = Inr (sample_obj 2 12 ''NGC'')"
    using index_lookup_after_add [OF live run ids seqs x] by simp
  moreover have "id_num (sample_obj 2 12 ''NGC'') = 2" "sequence (sample_obj 2 12 ''NGC'') = 12"
    by (simp_all add: sample_obj_fields)
  ultimately show ?thesis using ids
    unfolding c'_def h'_def call_def c_def h_def by simp
qed

section \<open>The filtered list before the first filter run\<close>

lemma run_adds_alias:
  assumes "objects c0 < length h0" and "filtered_objects c0 = fo"
    and "run_adds calls (c0, h0) = (c, h')"
  shows "objects c = objects c0 \<and> filtered_objects c = fo \<and> length h' = length h0
    \<and> set (deref h' (objects c)) = set (deref h0 (objects c0)) \<union> set (concat (map added calls))
    \<and> length (deref h' (objects c)) = length (deref h0 (objects c0)) + length (concat (map added calls))"
  using assms
proof (induction calls arbitrary: c0 h0)
  case Nil
  then show ?case by (simp add: run_adds_def)
next
  case (Cons call calls)
  obtain c1 h1 where s: "run_add call (c0, h0) = (c1, h1)" by (cases "run_add call (c0, h0)")
  note r = run_add_result [OF Cons.prems(1) s]
  have rest: "run_adds calls (c1, h1) = (c, h')"
    using Cons.prems(3) s by (simp add: run_adds_def)
  have live1: "objects c1 < length h1" using r Cons.prems(1) by simp
  have al1: "filtered_objects c1 = fo" using r Cons.prems(2) by simp
  note ih = Cons.IH [OF live1 al1 rest]
  have d1: "deref h1 (objects c1) = sort_key (sort_key_of (sort_by c0)) (deref h0 (objects c0) @ added call)"
    using r by simp
  show ?case using ih r unfolding d1 by (auto simp: Un_assoc)
qed

lemma Catalog_init_alias:
  "Catalog_init code m d h = (c, h') \<Longrightarrow>
     objects c = length h \<and> filtered_objects c = Some (objects c) \<and> h' = h @ [[]]"
  by (auto simp: Catalog_init_def CatalogBase_init_def alloc_def get_objects_def Let_def)

text \<open>Without the assignment in \<open>Catalog.__init__\<close> the instance has no
  \<open>filtered_objects\<close> of its own, whatever is added: the name then reads as the empty
  class-level list.\<close>

lemma CatalogBase_init_no_alias:
  "CatalogBase_init code m d srt h = (c, h') \<Longrightarrow>
     objects c = length h \<and> filtered_objects c = None \<and> h' = h @ [[]]"
  by (auto simp: CatalogBase_init_def alloc_def Let_def)

lemma base_filtered_objects_stays_empty:
  "(case run_adds calls (CatalogBase_init code m d srt h) of
      (c, h') \<Rightarrow> filtered_objects c = None \<and> read_filtered h' c = [])"
proof -
  obtain c0 h0 where i: "CatalogBase_init code m d srt h = (c0, h0)"
    by (cases "CatalogBase_init code m d srt h")
  obtain c h' where r: "run_adds calls (c0, h0) = (c, h')" by (cases "run_adds calls (c0, h0)")
  note a = CatalogBase_init_no_alias [OF i]
  have live: "objects c0 < length h0" using a by simp
  have al: "filtered_objects c0 = None" using a by simp
  have "filtered_objects c = None" using run_adds_alias [OF live al r] by blast
  then show ?thesis
    unfolding i r by (simp add: read_filtered_def Catalog_filtered_objects_def)
qed

text \<open>
  Claim C10. Construct a catalog and make any sequence of \<open>add_object\<close> and
  \<open>add_objects\<close> calls, with no \<open>filter_objects\<close> call in between (the empty
  sequence is the state right after construction). Then \<open>filtered_objects\<close> refers to
  the very list object that \<open>objects\<close> is, as \<open>Catalog.__init__\<close> assigned it, so it
  reads as the full object list: it contains exactly the objects added, as many as were
  added, with no filter applied.
\<close>

theorem filtered_objects_is_objects_until_filtered:
  "(case run_adds calls (Catalog_init code m d h) of
      (c, h') \<Rightarrow>
        filtered_objects c = Some (objects c)
      \<and> read_filtered h' c = deref h' (objects c)
      \<and> set (read_filtered h' c) = set (concat (map added calls))
      \<and> length (read_filtered h' c) = length (concat (map added calls)))"
proof -
  obtain c0 h0 where i: "Catalog_init code m d h = (c0, h0)" by (cases "Catalog_init code m d h")
  obtain c h' where r: "run_adds calls (c0, h0) = (c, h')" by (cases "run_adds calls (c0, h0)")
  note a = Catalog_init_alias [OF i]
  have live: "objects c0 < length h0" using a by simp
  have e: "deref h0 (objects c0) = []" using a by (simp add: deref_def)
  have al: "filtered_objects c0 = Some (objects c0)" using a by simp
  note f = run_adds_alias [OF live al r]
  have 1: "filtered_objects c = Some (objects c)" using f by auto
  have 0: "read_filtered h' c = deref h' (objects c)" by (simp add: read_filtered_def 1)
  have 2: "set (deref h' (objects c)) = set (concat (map added calls))"
    using f unfolding e by auto
  have 3: "length (deref h' (objects c)) = length (concat (map added calls))"
    using f unfolding e by auto
  show ?thesis unfolding i r using 1 2 3 by (simp add: 0)
qed

text \<open>Three objects added one by one and in a batch to a new catalog: the filtered
  list reads as the sorted list of all three.\<close>

theorem filtered_objects_is_objects_until_filtered_witness:
  "(case run_adds [AddObject (sample_obj 3 47 ''NGC''),
                   AddObjects [sample_obj 1 5 ''NGC'', sample_obj 2 12 ''NGC'']]
          (Catalog_init ''NGC'' 7840 [] []) of
      (c, h') \<Rightarrow> filtered_objects c = Some (objects c)
        \<and> read_filtered h' c = deref h' (objects c)
        \<and> set (read_filtered h' c)
            = set [sample_obj 3 47 ''NGC'', sample_obj 1 5 ''NGC'', sample_obj 2 12 ''NGC'']
        \<and> length (read_filtered h' c) = 3)"
proof -
  have a: "concat (map added [AddObject (sample_obj 3 47 ''NGC''),
        AddObjects [sample_obj 1 5 ''NGC'', sample_obj 2 12 ''NGC'']])
      = [sample_obj 3 47 ''NGC'', sample_obj 1 5 ''NGC'', sample_obj 2 12 ''NGC'']"
    by simp
  have l: "length [sample_obj 3 47 ''NGC'', sample_obj 1 5 ''NGC'', sample_obj 2 12 ''NGC''] = 3"
    by simp
  show ?thesis
    using filtered_objects_is_objects_until_filtered [of "[AddObject (sample_obj 3 47 ''NGC''),
        AddObjects [sample_obj 1 5 ''NGC'', sample_obj 2 12 ''NGC'']]" "''NGC''" 7840 "[]" "[]"]
    unfolding a l .
qed

text \<open>The first \<open>filter_objects\<close> call ends the sharing: its result is a new list.\<close>

lemma filter_objects_fresh_list:
  "filter_objects altaz cv now st c h = Inr (c', h') \<Longrightarrow> objects c < length h \<Longrightarrow>
     filtered_objects c' \<noteq> Some (objects c') \<and> objects c' = objects c"
  by (auto simp: filter_objects_def bind_def alloc_def Let_def attr_def
      split: sum.splits prod.splits option.splits)

section \<open>Deduplication of ranked results\<close>

lemma kept_entry_snoc:
  "kept_entry (xs @ [x]) i =
     (if object_id x = i
      then Some (case kept_entry xs i of None \<Rightarrow> x | Some y \<Rightarrow> precedence y x)
      else kept_entry xs i)"
  by (simp add: kept_entry_def)

lemma precedence_cases: "precedence y x = y \<or> precedence y x = x"
  by (simp add: precedence_def)

lemma kept_entry_None_iff: "kept_entry xs i = None \<longleftrightarrow> i \<notin> object_id ` set xs"
proof (induction xs rule: rev_induct)
  case Nil
  then show ?case by (simp add: kept_entry_def)
next
  case (snoc x xs)
  then show ?case by (auto simp: kept_entry_snoc)
qed

lemma kept_entry_id: "kept_entry xs i = Some y \<Longrightarrow> object_id y = i"
proof (induction xs arbitrary: y rule: rev_induct)
  case Nil
  then show ?case by (simp add: kept_entry_def)
next
  case (snoc x xs)
  show ?case
  proof (cases "object_id x = i")
    case False
    then show ?thesis using snoc by (simp add: kept_entry_snoc)
  next
    case True
    show ?thesis
    proof (cases "kept_entry xs i")
      case None
      then show ?thesis using snoc.prems True by (simp add: kept_entry_snoc)
    next
      case (Some z)
      then have "object_id z = i" by (rule snoc.IH)
      moreover have "y = precedence z x" using snoc.prems True Some by (simp add: kept_entry_snoc)
      ultimately show ?thesis using True precedence_cases [of z x] by auto
    qed
  qed
qed

lemma first_ids_snoc:
  "first_ids (xs @ [x]) =
     (if object_id x \<in> object_id ` set xs then first_ids xs else first_ids xs @ [object_id x])"
  by (simp add: first_ids_def)

lemma set_first_ids: "set (first_ids xs) = object_id ` set xs"
  by (simp add: first_ids_def)

lemma distinct_first_ids: "distinct (first_ids xs)"
  by (simp add: first_ids_def)

lemma map_filter_all_Some:
  "(\<And>i. i \<in> set is \<Longrightarrow> f i \<noteq> None) \<Longrightarrow> List.map_filter f is = map (\<lambda>i. the (f i)) is"
  by (induction "is") (auto split: option.splits)

lemma deduplicate_spec_map:
  "deduplicate_spec xs = map (\<lambda>i. the (kept_entry xs i)) (first_ids xs)"
  unfolding deduplicate_spec_def
  by (rule map_filter_all_Some) (simp add: kept_entry_None_iff set_first_ids)

lemma ids_deduplicate_spec: "map object_id (deduplicate_spec xs) = first_ids xs"
proof -
  have "object_id (the (kept_entry xs i)) = i" if "i \<in> set (first_ids xs)" for i
  proof -
    from that have "kept_entry xs i \<noteq> None" by (simp add: kept_entry_None_iff set_first_ids)
    then obtain y where y: "kept_entry xs i = Some y" by auto
    then show ?thesis using kept_entry_id [OF y] by simp
  qed
  then show ?thesis by (simp add: deduplicate_spec_map map_idI)
qed

lemma spec_snoc_new:
  assumes "object_id x \<notin> object_id ` set xs"
  shows "deduplicate_spec (xs @ [x]) = deduplicate_spec xs @ [x]"
proof -
  have "map (\<lambda>i. the (kept_entry (xs @ [x]) i)) (first_ids xs)
      = map (\<lambda>i. the (kept_entry xs i)) (first_ids xs)"
    using assms by (intro map_cong refl) (auto simp: kept_entry_snoc set_first_ids)
  moreover have "kept_entry xs (object_id x) = None" using assms by (simp add: kept_entry_None_iff)
  ultimately show ?thesis
    using assms by (simp add: deduplicate_spec_map first_ids_snoc kept_entry_snoc)
qed

lemma first_index_map_distinct:
  assumes "distinct is" and "k \<in> set is" and "\<And>i. i \<in> set is \<Longrightarrow> f (g i) = i"
  shows "\<exists>j. j < length is \<and> is ! j = k \<and> first_index (\<lambda>e. f e = k) (map g is) = Inr j"
  using assms
proof (induction "is")
  case Nil
  then show ?case by simp
next
  case (Cons a as)
  show ?case
  proof (cases "a = k")
    case True
    then show ?thesis using Cons.prems by (intro exI [of _ 0]) simp
  next
    case False
    then have "k \<in> set as" using Cons.prems by simp
    then obtain j where j: "j < length as" "as ! j = k" "first_index (\<lambda>e. f e = k) (map g as) = Inr j"
      using Cons by auto
    have "f (g a) \<noteq> k" using False Cons.prems(3) [of a] by simp
    then show ?thesis using j by (intro exI [of _ "Suc j"]) (simp add: bind_def)
  qed
qed

lemma map_update_distinct:
  assumes "distinct is" and "j < length is"
  shows "map (\<lambda>i. if i = is ! j then v else g i) is = (map g is)[j := v]"
proof (rule nth_equalityI)
  show "length (map (\<lambda>i. if i = is ! j then v else g i) is) = length ((map g is)[j := v])" by simp
next
  fix n assume "n < length (map (\<lambda>i. if i = is ! j then v else g i) is)"
  then have n: "n < length is" by simp
  show "map (\<lambda>i. if i = is ! j then v else g i) is ! n = (map g is)[j := v] ! n"
    using n assms by (auto simp: nth_list_update nth_eq_iff_index_eq)
qed

lemma spec_snoc_dup:
  assumes "object_id x \<in> object_id ` set xs"
  shows "\<exists>j. j < length (deduplicate_spec xs)
     \<and> first_index (\<lambda>e. object_id e = object_id x) (deduplicate_spec xs) = Inr j
     \<and> deduplicate_spec (xs @ [x]) = (deduplicate_spec xs)[j := precedence (deduplicate_spec xs ! j) x]"
proof -
  define g where "g = (\<lambda>i. the (kept_entry xs i))"
  have gid: "object_id (g i) = i" if "i \<in> set (first_ids xs)" for i
  proof -
    from that have "kept_entry xs i \<noteq> None" by (simp add: kept_entry_None_iff set_first_ids)
    then obtain y where y: "kept_entry xs i = Some y" by auto
    then show ?thesis using kept_entry_id [OF y] by (simp add: g_def)
  qed
  have k: "object_id x \<in> set (first_ids xs)" using assms by (simp add: set_first_ids)
  obtain j where j: "j < length (first_ids xs)" "first_ids xs ! j = object_id x"
    "first_index (\<lambda>e. object_id e = object_id x) (map g (first_ids xs)) = Inr j"
    using first_index_map_distinct [of "first_ids xs" "object_id x" object_id g,
        OF distinct_first_ids k gid] by blast
  have spec: "deduplicate_spec xs = map g (first_ids xs)" by (simp add: deduplicate_spec_map g_def)
  have "kept_entry xs (object_id x) \<noteq> None"
    using assms by (simp add: kept_entry_None_iff)
  then obtain y where y: "kept_entry xs (object_id x) = Some y" by auto
  have gy: "g (object_id x) = y" by (simp add: g_def y)
  have "deduplicate_spec (xs @ [x])
      = map (\<lambda>i. if i = first_ids xs ! j then precedence (g (object_id x)) x else g i) (first_ids xs)"
    using assms j(2) by (simp add: deduplicate_spec_map first_ids_snoc kept_entry_snoc g_def y)
  also have "\<dots> = (map g (first_ids xs))[j := precedence (g (object_id x)) x]"
    by (rule map_update_distinct [OF distinct_first_ids j(1)])
  finally have "deduplicate_spec (xs @ [x]) = (deduplicate_spec xs)[j := precedence (deduplicate_spec xs ! j) x]"
    using j by (simp add: spec)
  then show ?thesis using j by (auto simp: spec)
qed

lemma deduplicate_loop_spec:
  "deduplicate_loop rest (deduplicate_spec pre) (object_id ` set pre) = Inr (deduplicate_spec (pre @ rest))"
proof (induction rest arbitrary: pre)
  case Nil
  then show ?case by simp
next
  case (Cons x rest)
  have ih: "deduplicate_loop rest (deduplicate_spec (pre @ [x])) (object_id ` set (pre @ [x]))
      = Inr (deduplicate_spec (pre @ x # rest))"
    using Cons.IH [of "pre @ [x]"] by simp
  show ?case
  proof (cases "object_id x \<in> object_id ` set pre")
    case False
    then show ?thesis using ih by (simp add: spec_snoc_new)
  next
    case True
    obtain j where j: "j < length (deduplicate_spec pre)"
      "first_index (\<lambda>e. object_id e = object_id x) (deduplicate_spec pre) = Inr j"
      "deduplicate_spec (pre @ [x]) = (deduplicate_spec pre)[j := precedence (deduplicate_spec pre ! j) x]"
      using spec_snoc_dup [OF True] by blast
    have s: "object_id ` set (pre @ [x]) = object_id ` set pre" using True by auto
    have p: "py_index (deduplicate_spec pre) (int j) = Inr (deduplicate_spec pre ! j)"
      using j(1) by (simp add: py_index_def)
    define kept where "kept = deduplicate_spec pre ! j"
    define wins where "wins \<longleftrightarrow>
        (obj_catalog_code x = ''M'' \<and> obj_catalog_code kept \<noteq> ''M'')
      \<or> (obj_catalog_code x = ''NGC'' \<and> obj_catalog_code kept \<notin> set [''M'', ''NGC''])"
    have step: "deduplicate_loop (x # rest) (deduplicate_spec pre) (object_id ` set pre)
        = (if wins then deduplicate_loop rest ((deduplicate_spec pre)[j := x]) (object_id ` set pre)
           else deduplicate_loop rest (deduplicate_spec pre) (object_id ` set pre))"
      using True j(2) p by (simp add: bind_def wins_def kept_def)
    have ih': "deduplicate_loop rest ((deduplicate_spec pre)[j := precedence kept x]) (object_id ` set pre)
        = Inr (deduplicate_spec (pre @ x # rest))"
      using ih unfolding s j(3) kept_def .
    show ?thesis
    proof (cases wins)
      case True
      then have "precedence kept x = x" by (auto simp: wins_def precedence_def)
      then show ?thesis using ih' True step by simp
    next
      case False
      then have "precedence kept x = kept" by (auto simp: wins_def precedence_def)
      then have "(deduplicate_spec pre)[j := precedence kept x] = deduplicate_spec pre"
        by (simp add: kept_def)
      then show ?thesis using ih' False step by simp
    qed
  qed
qed

text \<open>
  Claim C2. For every ranked result list, \<open>_deduplicate\<close> returns (without raising)
  one entry per object id, at the position of the first occurrence of that id: the ids
  of the output are the ids of the input in order of first occurrence, without
  repetition. The entry kept for an id is its first occurrence weighed in turn against
  each later duplicate: a later \<open>M\<close> replaces a kept entry that is not \<open>M\<close>, a later
  \<open>NGC\<close> replaces a kept entry that is neither \<open>M\<close> nor \<open>NGC\<close>, any other duplicate
  is dropped. Nothing is reordered.
\<close>

theorem deduplicate_first_position_precedence:
  "deduplicate xs = Inr (deduplicate_spec xs)
   \<and> map object_id (deduplicate_spec xs) = first_ids xs
   \<and> distinct (map object_id (deduplicate_spec xs))"
proof -
  have "deduplicate_spec [] = []" by (simp add: deduplicate_spec_def first_ids_def)
  then have "deduplicate xs = Inr (deduplicate_spec xs)"
    using deduplicate_loop_spec [of xs "[]"] by (simp add: deduplicate_def)
  then show ?thesis by (simp add: ids_deduplicate_spec distinct_first_ids)
qed

text \<open>The same object under \<open>IC\<close>, \<open>NGC\<close> and \<open>M\<close>, with another object in between:
  \<open>M\<close> is kept at the first position; between \<open>NGC\<close> and \<open>IC\<close> alone, \<open>NGC\<close> is kept
  whichever comes first.\<close>

theorem deduplicate_first_position_precedence_witness:
  "deduplicate [sample_obj 1 10 ''IC'', sample_obj 1 20 ''NGC'', sample_obj 2 30 ''IC'', sample_obj 1 40 ''M'']
     = Inr [sample_obj 1 40 ''M'', sample_obj 2 30 ''IC'']
   \<and> deduplicate [sample_obj 1 20 ''NGC'', sample_obj 1 10 ''IC''] = Inr [sample_obj 1 20 ''NGC'']
   \<and> deduplicate [sample_obj 1 10 ''IC'', sample_obj 1 20 ''NGC''] = Inr [sample_obj 1 20 ''NGC'']"
proof -
  have a: "deduplicate_spec [sample_obj 1 10 ''IC'', sample_obj 1 20 ''NGC'', sample_obj 2 30 ''IC'',
        sample_obj 1 40 ''M''] = [sample_obj 1 40 ''M'', sample_obj 2 30 ''IC'']"
    by (simp add: deduplicate_spec_def first_ids_def kept_entry_def precedence_def sample_obj_fields)
  have b: "deduplicate_spec [sample_obj 1 20 ''NGC'', sample_obj 1 10 ''IC''] = [sample_obj 1 20 ''NGC'']"
    by (simp add: deduplicate_spec_def first_ids_def kept_entry_def precedence_def sample_obj_fields)
  have c: "deduplicate_spec [sample_obj 1 10 ''IC'', sample_obj 1 20 ''NGC''] = [sample_obj 1 20 ''NGC'']"
    by (simp add: deduplicate_spec_def first_ids_def kept_entry_def precedence_def sample_obj_fields)
  show ?thesis
    using deduplicate_first_position_precedence [of "[sample_obj 1 10 ''IC'', sample_obj 1 20 ''NGC'',
        sample_obj 2 30 ''IC'', sample_obj 1 40 ''M'']"]
      deduplicate_first_position_precedence [of "[sample_obj 1 20 ''NGC'', sample_obj 1 10 ''IC'']"]
      deduplicate_first_position_precedence [of "[sample_obj 1 10 ''IC'', sample_obj 1 20 ''NGC'']"]
    unfolding a b c by simp
qed

section \<open>Navigation in the tracker\<close>

lemma dict_get_Some: "map_of d k = Some v \<Longrightarrow> dict_get d k = Inr v"
  by (simp add: dict_get_def)

lemma designator_set_number_ok:
  "map_of (designator_tracker t) key = Some d \<Longrightarrow>
   designator_set_number t key n =
     Inr (t\<lparr>designator_tracker := AList.update key (set_number d n) (designator_tracker t)\<rparr>)"
  by (simp add: designator_set_number_def dict_get_def bind_def)

lemma py_index_first: "xs \<noteq> [] \<Longrightarrow> py_index xs 0 = Inr (hd xs)"
  by (cases xs) (simp_all add: py_index_def)

lemma py_index_last: "xs \<noteq> [] \<Longrightarrow> py_index xs (int (length xs) - 1) = Inr (last xs)"
  by (cases xs rule: rev_cases) (simp_all add: py_index_def nth_append)

lemma list_index_hd: "list_index (k # xs) k = Inr 0"
  by simp

lemma list_index_only_last: "k \<notin> set xs \<Longrightarrow> list_index (xs @ [k]) k = Inr (length xs)"
  by (induction xs) (auto simp: bind_def)

lemma lookup_by_key_some:
  assumes x: "x \<in> set xs"
  shows "\<exists>y. bind (dict_get (pos_index key xs) (key x)) (\<lambda>pos. py_index xs (int pos)) = Inr y
     \<and> y \<in> set xs \<and> key y = key x"
proof -
  obtain p where p: "map_of (pos_index key xs) (key x) = Some p"
    using pos_index_defined [OF x] by blast
  have pl: "p < length xs" and pk: "key (xs ! p) = key x"
    using pos_index_lookup [OF p] by simp_all
  show ?thesis using p pl pk by (simp add: dict_get_def bind_def py_index_def)
qed

text \<open>Storing a key with \<open>set_current_object(key)\<close> in a tracker that has a designator
  for the current catalog.\<close>

lemma set_current_object_plain:
  assumes "map_of (designator_tracker t) (current_catalog_name t) = Some d"
  shows "\<exists>t'. set_current_object t h key None = Inr (t', h)
     \<and> current_catalog t' = current_catalog t \<and> current_catalog_name t' = current_catalog_name t
     \<and> tracked t' = Some key
     \<and> shown_number t' = Some (case key of None \<Rightarrow> 0 | Some n \<Rightarrow> n)"
proof -
  define t1 where "t1 = t\<lparr>object_tracker := AList.update (current_catalog_name t) key (object_tracker t)\<rparr>"
  have d1: "map_of (designator_tracker t1) (current_catalog_name t) = Some d"
    using assms by (simp add: t1_def)
  have v: "(case key of None \<Rightarrow> 0 | Some n \<Rightarrow> if n \<noteq> 0 then n else 0)
      = (case key of None \<Rightarrow> (0::int) | Some n \<Rightarrow> n)"
    by (cases key) auto
  have "set_current_object t h key None =
      Inr (t1\<lparr>designator_tracker := AList.update (current_catalog_name t)
              (set_number d (case key of None \<Rightarrow> 0 | Some n \<Rightarrow> n)) (designator_tracker t1)\<rparr>, h)"
    using designator_set_number_ok [OF d1] unfolding v
    by (simp add: set_current_object_def Let_def bind_def t1_def [symmetric] v)
  then show ?thesis
    by (simp add: t1_def tracked_def shown_number_def update_conv' set_number_def refresh_field_def)
qed

lemma next_object_outcome:
  assumes slot: "tracked t = Some key"
    and dsg: "map_of (designator_tracker t) (current_catalog_name t) = Some d"
    and nk: "next_key_of (map sequence (active_list t h filtered)) key direction = Inr nk"
  shows "\<exists>t'. next_object t h direction filtered =
        bind (case nk of None \<Rightarrow> Inr None
              | Some k \<Rightarrow> bind (get_object_by_sequence (current_catalog t) h k) (\<lambda>ob. Inr (Some ob)))
          (\<lambda>res. Inr (res, t', h))
      \<and> tracked t' = Some nk
      \<and> shown_number t' = Some (case nk of None \<Rightarrow> 0 | Some n \<Rightarrow> n)"
proof -
  define N where "N = current_catalog_name t"
  define ids where "ids = map sequence (active_list t h filtered)"
  define upd where "upd = (\<lambda>n. t\<lparr>designator_tracker := AList.update N (set_number d n) (designator_tracker t)\<rparr>)"
  have sn: "designator_set_number t N n = Inr (upd n)" for n
    using designator_set_number_ok [OF dsg] by (simp add: upd_def N_def)
  define t1 where "t1 = upd (case nk of None \<Rightarrow> 0 | Some k \<Rightarrow> k)"
  have phase: "next_object_branch t N ids key direction = Inr (nk, t1)"
    using nk unfolding ids_def [symmetric] next_key_of_def next_object_branch_def sn t1_def
    by (auto simp: Let_def bind_def split: option.splits sum.splits if_splits)
  have d1: "map_of (designator_tracker t1) (current_catalog_name t1) = Some (set_number d (case nk of None \<Rightarrow> 0 | Some k \<Rightarrow> k))"
    by (simp add: t1_def upd_def N_def update_conv')
  obtain t' where t': "set_current_object t1 h nk None = Inr (t', h)"
    "current_catalog t' = current_catalog t1" "current_catalog_name t' = current_catalog_name t1"
    "tracked t' = Some nk" "shown_number t' = Some (case nk of None \<Rightarrow> 0 | Some n \<Rightarrow> n)"
    using set_current_object_plain [OF d1, of h nk] by blast
  have cc: "current_catalog t' = current_catalog t" using t'(2) by (simp add: t1_def upd_def)
  have g: "get_current_object t' h =
      (case nk of None \<Rightarrow> Inr None
       | Some k \<Rightarrow> bind (get_object_by_sequence (current_catalog t) h k) (\<lambda>ob. Inr (Some ob)))"
    using t'(4) by (cases nk) (simp_all add: get_current_object_def tracked_def dict_get_def bind_def cc)
  have s0: "dict_get (object_tracker t) (current_catalog_name t) = Inr key"
    using slot by (simp add: tracked_def dict_get_def)
  have g0: "get_designator t None = Inr d"
    using dsg by (simp add: get_designator_def designator_key_def dict_get_def)
  have "next_object t h direction filtered =
      bind (get_current_object t' h) (\<lambda>res. Inr (res, t', h))"
    unfolding next_object_def Let_def
    using phase s0 g0 t'(1)
    by (cases filtered)
      (simp_all add: bind_def designator_key_def N_def ids_def active_list_def get_objects_def)
  then show ?thesis using g t'(4,5) by auto
qed

lemma next_key_jump_first:
  assumes "ids \<noteq> []" and "key = None \<or> (\<exists>k. key = Some k \<and> k \<notin> set ids)"
  shows "next_key_of ids key 1 = Inr (Some (hd ids))"
  using assms by (auto simp: next_key_of_def Let_def bind_def py_index_first)

lemma next_key_jump_last:
  assumes "ids \<noteq> []" and "key = None \<or> (\<exists>k. key = Some k \<and> k \<notin> set ids)"
  shows "next_key_of ids key (- 1) = Inr (Some (last ids))"
  using assms by (auto simp: next_key_of_def Let_def bind_def py_index_last)

lemma next_key_end_forward:
  assumes "ids \<noteq> []" and "k = last ids" and "k \<notin> set (butlast ids)"
  shows "next_key_of ids (Some k) 1 = Inr None"
proof -
  have ids: "ids = butlast ids @ [k]" using assms by simp
  have i: "list_index ids k = Inr (length (butlast ids))"
    using list_index_only_last [OF assms(3)] ids by simp
  have m: "k \<in> set ids" using assms by simp
  obtain n where n: "length ids = Suc n" using assms(1) by (cases ids) auto
  have "int (length (butlast ids)) + 1 = int (length ids)" by (simp add: n)
  then show ?thesis using i m by (simp add: next_key_of_def Let_def bind_def)
qed

lemma next_key_end_backward:
  assumes "ids \<noteq> []"
  shows "next_key_of ids (Some (hd ids)) (- 1) = Inr None"
  using assms by (cases ids) (simp_all add: next_key_of_def Let_def bind_def)

lemma next_object_arrives:
  assumes slot: "tracked t = Some key"
    and dsg: "shown_number t \<noteq> None"
    and nk: "next_key_of (map sequence (active_list t h filtered)) key direction = Inr (Some (sequence x))"
    and x: "x \<in> set (all_objects t h)"
    and idx: "index_current t h"
  shows "\<exists>ob t'. next_object t h direction filtered = Inr (Some ob, t', h)
      \<and> sequence ob = sequence x \<and> ob \<in> set (all_objects t h)
      \<and> (distinct (map sequence (all_objects t h)) \<longrightarrow> ob = x)
      \<and> tracked t' = Some (Some (sequence ob)) \<and> shown_number t' = Some (sequence ob)"
proof -
  obtain d where d: "map_of (designator_tracker t) (current_catalog_name t) = Some d"
    using dsg by (auto simp: shown_number_def)
  obtain t' where t': "next_object t h direction filtered =
        bind (bind (get_object_by_sequence (current_catalog t) h (sequence x)) (\<lambda>ob. Inr (Some ob)))
          (\<lambda>res. Inr (res, t', h))"
      "tracked t' = Some (Some (sequence x))" "shown_number t' = Some (sequence x)"
    using next_object_outcome [OF slot d nk] by auto
  obtain y where y: "bind (dict_get (pos_index sequence (all_objects t h)) (sequence x))
        (\<lambda>pos. py_index (all_objects t h) (int pos)) = Inr y"
      "y \<in> set (all_objects t h)" "sequence y = sequence x"
    using lookup_by_key_some [OF x, of sequence] by blast
  have g: "get_object_by_sequence (current_catalog t) h (sequence x) = Inr y"
    using idx y(1) by (simp add: get_object_by_sequence_def index_current_def attr_def bind_def all_objects_def)
  have n: "next_object t h direction filtered = Inr (Some y, t', h)"
    using t'(1) g by (simp add: bind_def)
  have u: "y = x" if "distinct (map sequence (all_objects t h))"
    using that x y(2,3) by (meson distinct_map inj_onD)
  show ?thesis using n y(2,3) t'(2,3) u by auto
qed

lemma next_object_leaves:
  assumes slot: "tracked t = Some key"
    and dsg: "shown_number t \<noteq> None"
    and nk: "next_key_of (map sequence (active_list t h filtered)) key direction = Inr None"
  shows "\<exists>t'. next_object t h direction filtered = Inr (None, t', h)
      \<and> tracked t' = Some None \<and> shown_number t' = Some 0"
proof -
  obtain d where d: "map_of (designator_tracker t) (current_catalog_name t) = Some d"
    using dsg by (auto simp: shown_number_def)
  show ?thesis using next_object_outcome [OF slot d nk] by (auto simp: bind_def)
qed

text \<open>
  Claim C1. Take a tracker that has a tracked-object slot and a designator for the current
  catalog, and a non-empty active list (the filtered list when \<open>filtered\<close>, the full
  list otherwise).

  If no object is tracked, or the tracked sequence is absent from the active list, and
  the sequence index is the one built from the catalog's objects, which include the
  active list, then \<open>next_object(1)\<close> returns an object of the catalog with the sequence
  of the first entry of the active list (the entry itself when sequences are
  distinct), and tracks and shows that sequence; \<open>next_object(-1)\<close> does the same with
  the last entry.

  If the tracked sequence is that of the last entry and of no earlier one,
  \<open>next_object(1)\<close> returns no object, clears the tracked object and sets the designator
  number to 0; so does \<open>next_object(-1)\<close> when the tracked sequence is that of the
  first entry. There is no wrap-around.
\<close>

theorem next_object_boundaries:
  assumes slot: "tracked t = Some key"
    and dsg: "shown_number t \<noteq> None"
    and ne: "active_list t h filtered \<noteq> []"
  shows "((key = None \<or> (\<exists>k. key = Some k \<and> k \<notin> sequence ` set (active_list t h filtered)))
          \<and> index_current t h \<and> set (active_list t h filtered) \<subseteq> set (all_objects t h)
        \<longrightarrow>
          (\<exists>ob t'. next_object t h 1 filtered = Inr (Some ob, t', h)
              \<and> sequence ob = sequence (hd (active_list t h filtered))
              \<and> ob \<in> set (all_objects t h)
              \<and> (distinct (map sequence (all_objects t h)) \<longrightarrow> ob = hd (active_list t h filtered))
              \<and> tracked t' = Some (Some (sequence ob)) \<and> shown_number t' = Some (sequence ob))
        \<and> (\<exists>ob t'. next_object t h (- 1) filtered = Inr (Some ob, t', h)
              \<and> sequence ob = sequence (last (active_list t h filtered))
              \<and> ob \<in> set (all_objects t h)
              \<and> (distinct (map sequence (all_objects t h)) \<longrightarrow> ob = last (active_list t h filtered))
              \<and> tracked t' = Some (Some (sequence ob)) \<and> shown_number t' = Some (sequence ob)))
     \<and> (key = Some (sequence (last (active_list t h filtered)))
          \<and> sequence (last (active_list t h filtered))
              \<notin> sequence ` set (butlast (active_list t h filtered))
        \<longrightarrow>
          (\<exists>t'. next_object t h 1 filtered = Inr (None, t', h)
              \<and> tracked t' = Some None \<and> shown_number t' = Some 0))
     \<and> (key = Some (sequence (hd (active_list t h filtered)))
        \<longrightarrow>
          (\<exists>t'. next_object t h (- 1) filtered = Inr (None, t', h)
              \<and> tracked t' = Some None \<and> shown_number t' = Some 0))"
proof -
  define act where "act = active_list t h filtered"
  define ids where "ids = map sequence act"
  have ids_ne: "ids \<noteq> []" using ne by (simp add: ids_def act_def)
  have hd_ids: "hd ids = sequence (hd act)" using ne by (simp add: ids_def act_def hd_map)
  have last_ids: "last ids = sequence (last act)" using ne by (simp add: ids_def act_def last_map)
  have set_ids: "set ids = sequence ` set act" by (simp add: ids_def)
  have bl_ids: "set (butlast ids) = sequence ` set (butlast act)" by (simp add: ids_def map_butlast [symmetric])
  have jump: "(\<exists>ob t'. next_object t h 1 filtered = Inr (Some ob, t', h)
              \<and> sequence ob = sequence (hd act) \<and> ob \<in> set (all_objects t h)
              \<and> (distinct (map sequence (all_objects t h)) \<longrightarrow> ob = hd act)
              \<and> tracked t' = Some (Some (sequence ob)) \<and> shown_number t' = Some (sequence ob))
        \<and> (\<exists>ob t'. next_object t h (- 1) filtered = Inr (Some ob, t', h)
              \<and> sequence ob = sequence (last act) \<and> ob \<in> set (all_objects t h)
              \<and> (distinct (map sequence (all_objects t h)) \<longrightarrow> ob = last act)
              \<and> tracked t' = Some (Some (sequence ob)) \<and> shown_number t' = Some (sequence ob))"
    if k: "key = None \<or> (\<exists>k. key = Some k \<and> k \<notin> sequence ` set act)"
      and idx: "index_current t h" and sub: "set act \<subseteq> set (all_objects t h)"
  proof -
    have k': "key = None \<or> (\<exists>k. key = Some k \<and> k \<notin> set ids)" using k by (simp add: set_ids)
    have f: "next_key_of (map sequence (active_list t h filtered)) key 1 = Inr (Some (sequence (hd act)))"
      using next_key_jump_first [OF ids_ne k', unfolded hd_ids] unfolding ids_def act_def .
    have l: "next_key_of (map sequence (active_list t h filtered)) key (- 1) = Inr (Some (sequence (last act)))"
      using next_key_jump_last [OF ids_ne k', unfolded last_ids] unfolding ids_def act_def .
    have xf: "hd act \<in> set (all_objects t h)" using sub ne by (auto simp: act_def)
    have xl: "last act \<in> set (all_objects t h)" using sub ne by (auto simp: act_def)
    show ?thesis
      using next_object_arrives [OF slot dsg f xf idx] next_object_arrives [OF slot dsg l xl idx]
      by blast
  qed
  have fwd: "\<exists>t'. next_object t h 1 filtered = Inr (None, t', h)
              \<and> tracked t' = Some None \<and> shown_number t' = Some 0"
    if k: "key = Some (sequence (last act))"
      and u: "sequence (last act) \<notin> sequence ` set (butlast act)"
  proof -
    have "next_key_of ids (Some (sequence (last act))) 1 = Inr None"
      using u by (intro next_key_end_forward [OF ids_ne]) (simp_all add: last_ids bl_ids)
    then have "next_key_of ids key 1 = Inr None" unfolding k .
    then have "next_key_of (map sequence (active_list t h filtered)) key 1 = Inr None"
      unfolding ids_def act_def .
    then show ?thesis by (rule next_object_leaves [OF slot dsg])
  qed
  have bwd: "\<exists>t'. next_object t h (- 1) filtered = Inr (None, t', h)
              \<and> tracked t' = Some None \<and> shown_number t' = Some 0"
    if k: "key = Some (sequence (hd act))"
  proof -
    have "next_key_of ids (Some (hd ids)) (- 1) = Inr None" by (rule next_key_end_backward [OF ids_ne])
    then have "next_key_of ids key (- 1) = Inr None" unfolding hd_ids k .
    then have "next_key_of (map sequence (active_list t h filtered)) key (- 1) = Inr None"
      unfolding ids_def act_def .
    then show ?thesis by (rule next_object_leaves [OF slot dsg])
  qed
  show ?thesis
    unfolding act_def [symmetric] using jump fwd bwd by blast
qed

text \<open>The list with sequences 5, 12, 47: from no tracked object, \<open>next_object(1)\<close>
  returns the object with sequence 5; from sequence 47 it returns no object.\<close>

lemma sample_tracker_facts:
  "tracked (sample_tracker k) = Some k"
  "shown_number (sample_tracker k) \<noteq> None"
  "active_list (sample_tracker k) sample_heap True = sample_objects"
  "all_objects (sample_tracker k) sample_heap = sample_objects"
  "index_current (sample_tracker k) sample_heap"
  by (simp_all add: sample_tracker_def tracked_def shown_number_def active_list_def all_objects_def
      index_current_def sample_indexed_catalog_def sample_catalog_def deref_def sample_heap_def
      read_filtered_def)

lemma sample_objects_facts:
  "sample_objects \<noteq> []"
  "hd sample_objects = sample_obj 1 5 ''NGC''"
  "last sample_objects = sample_obj 3 47 ''NGC''"
  "distinct (map sequence sample_objects)"
  "sequence ` set sample_objects = {5, 12, 47}"
  "sequence ` set (butlast sample_objects) = {5, 12}"
  by (simp_all add: sample_objects_def sample_obj_fields)

theorem next_object_boundaries_witness:
  "tracked (sample_tracker None) = Some None
   \<and> active_list (sample_tracker None) sample_heap True = sample_objects
   \<and> (\<exists>ob t'. next_object (sample_tracker None) sample_heap 1 True = Inr (Some ob, t', sample_heap)
         \<and> ob = sample_obj 1 5 ''NGC'' \<and> tracked t' = Some (Some 5) \<and> shown_number t' = Some 5)
   \<and> tracked (sample_tracker (Some 47)) = Some (Some 47)
   \<and> (\<exists>t'. next_object (sample_tracker (Some 47)) sample_heap 1 True = Inr (None, t', sample_heap)
         \<and> tracked t' = Some None \<and> shown_number t' = Some 0)"
proof -
  have ne: "active_list (sample_tracker k) sample_heap True \<noteq> []" for k
    by (simp add: sample_tracker_facts sample_objects_facts)
  note a = next_object_boundaries [where t = "sample_tracker None" and key = None
      and h = sample_heap and filtered = True,
      OF sample_tracker_facts(1) sample_tracker_facts(2) ne,
      unfolded sample_tracker_facts sample_objects_facts]
  have "\<exists>ob t'. next_object (sample_tracker None) sample_heap 1 True = Inr (Some ob, t', sample_heap)
         \<and> sequence ob = sequence (sample_obj 1 5 ''NGC'') \<and> ob = sample_obj 1 5 ''NGC''
         \<and> tracked t' = Some (Some (sequence ob)) \<and> shown_number t' = Some (sequence ob)"
    using a sample_objects_facts(4) sample_tracker_facts(5) [of None] by auto
  then have first: "\<exists>ob t'. next_object (sample_tracker None) sample_heap 1 True = Inr (Some ob, t', sample_heap)
         \<and> ob = sample_obj 1 5 ''NGC'' \<and> tracked t' = Some (Some 5) \<and> shown_number t' = Some 5"
    by (auto simp: sample_obj_fields)
  note b = next_object_boundaries [where t = "sample_tracker (Some 47)" and key = "Some 47"
      and h = sample_heap and filtered = True,
      OF sample_tracker_facts(1) sample_tracker_facts(2) ne,
      unfolded sample_tracker_facts sample_objects_facts]
  have s: "sequence (sample_obj 3 47 ''NGC'') = 47" by (simp add: sample_obj_fields)
  have past: "\<exists>t'. next_object (sample_tracker (Some 47)) sample_heap 1 True = Inr (None, t', sample_heap)
         \<and> tracked t' = Some None \<and> shown_number t' = Some 0"
    using b unfolding s by simp
  show ?thesis using first past by (simp add: sample_tracker_facts)
qed

section \<open>States the operations reach\<close>

lemma get_dict_twice: "fst (get_dict (snd (get_dict r))) = fst (get_dict r)"
  by (auto simp: get_dict_def Let_def dict_of_pairs_Nil_iff)

lemma map_err_all_ok:
  "(\<And>x. x \<in> set xs \<Longrightarrow> f x = Inr (g x)) \<Longrightarrow> map_err f xs = Inr (map g xs)"
  by (induction xs) (simp_all add: bind_def)

lemma map_of_dict_of_pairs_const:
  "k \<in> set ks \<Longrightarrow> map_of (dict_of_pairs (map (\<lambda>c. (c, g c)) ks)) k = Some (g k)"
proof -
  assume k: "k \<in> set ks"
  have "k \<in> set xs \<Longrightarrow> map_of (map (\<lambda>c. (c, g c)) xs) k = Some (g k)" for xs
    by (induction xs) auto
  from this [of "rev ks"] k show ?thesis by (simp add: map_of_dict_of_pairs rev_map)
qed

text \<open>A freshly constructed tracker has an empty slot and a designator showing 0 for
  its current catalog.\<close>

lemma tracker_init_ready:
  assumes "CatalogTracker_init reg st = Inr t"
  shows "tracked t = Some None \<and> shown_number t = Some 0"
proof -
  define d where "d = fst (get_dict reg)"
  define ns where "ns = map fst d"
  have n: "get_names reg = (ns, snd (get_dict reg))"
    by (simp add: get_names_def split_beta ns_def d_def)
  define r2 where "r2 = snd (get_dict (snd (get_dict reg)))"
  have g: "get_dict (snd (get_dict reg)) = (d, r2)"
    by (simp add: d_def r2_def get_dict_twice prod_eq_iff)
  have look: "dict_get d c = Inr (the (map_of d c))" if "c \<in> set ns" for c
  proof -
    from that have "map_of d c \<noteq> None" by (simp add: ns_def map_of_eq_None_iff)
    then show ?thesis by (auto simp: dict_get_def)
  qed
  define D where "D = (\<lambda>c. CatalogDesignator_init c (max_sequence (the (map_of d c))))"
  have m: "map_err (\<lambda>c. bind (dict_get d c)
              (\<lambda>cat. Inr (c, CatalogDesignator_init c (max_sequence cat)))) ns
      = Inr (map (\<lambda>c. (c, D c)) ns)"
    by (rule map_err_all_ok) (simp add: look bind_def D_def)
  have e: "CatalogTracker_init reg st =
      bind (py_index ns 0) (\<lambda>first_name.
      bind (dict_get d first_name) (\<lambda>cat.
        Inr \<lparr>shared_state = st, tracker_catalogs = r2,
             designator_tracker = dict_of_pairs (map (\<lambda>c. (c, D c)) ns),
             object_tracker = dict_of_pairs (map (\<lambda>c. (c, None)) ns),
             current_catalog = cat, current_catalog_name = first_name\<rparr>))"
    by (simp add: CatalogTracker_init_def n g m bind_Inr)
  from assms obtain first_name cat where f: "py_index ns 0 = Inr first_name"
    and t: "t = \<lparr>shared_state = st, tracker_catalogs = r2,
                designator_tracker = dict_of_pairs (map (\<lambda>c. (c, D c)) ns),
                object_tracker = dict_of_pairs (map (\<lambda>c. (c, None)) ns),
                current_catalog = cat, current_catalog_name = first_name\<rparr>"
    unfolding e by (auto simp: bind_def split: sum.splits)
  have "first_name \<in> set ns" using f by (cases ns) (auto simp: py_index_def split: if_splits)
  then show ?thesis
    by (simp add: t tracked_def shown_number_def map_of_dict_of_pairs_const D_def
        CatalogDesignator_init_def refresh_field_def)
qed

lemma filter_list_subset: "filter_list p xs = Inr ys \<Longrightarrow> set ys \<subseteq> set xs"
  by (induction xs arbitrary: ys) (auto simp: bind_def split: sum.splits if_splits)

text \<open>After \<open>filter_objects\<close> the filtered list is drawn from the object list, which is
  left as it was.\<close>

lemma filter_objects_subset:
  assumes "filter_objects altaz cv now st c h = Inr (c', h')" and "objects c < length h"
  shows "set (read_filtered h' c') \<subseteq> set (deref h' (objects c'))
     \<and> deref h' (objects c') = deref h (objects c)
     \<and> sequence_to_pos c' = sequence_to_pos c"
proof -
  from assms(1) obtain flt kept f' where
    a: "apply_cfilter altaz cv flt st (deref h (objects c)) = Inr (kept, f')"
    and c': "c' = c\<lparr>catalog_filter := Some f', filtered_objects := Some (length h), last_filtered := now\<rparr>"
    and h': "h' = h @ [kept]"
    by (auto simp: filter_objects_def bind_def alloc_def get_objects_def attr_def
        split: sum.splits option.splits)
  from a obtain f2 where "filter_list (apply_filter altaz cv f2) (deref h (objects c)) = Inr kept"
    by (auto simp: apply_cfilter_def bind_def Let_def split: sum.splits)
  then have "set kept \<subseteq> set (deref h (objects c))" by (rule filter_list_subset)
  then show ?thesis using assms(2) by (simp add: c' h' deref_def nth_append read_filtered_def)
qed

section \<open>The filter and the altitude transform\<close>

lemma calc_fast_aa_returns_None: "calc_fast_aa f st = Inr (f1, r) \<Longrightarrow> r = None"
  by (auto simp: calc_fast_aa_def bind_def split: if_splits option.splits sum.splits)

lemma apply_cfilter_drops_transform:
  "apply_cfilter altaz cv f st objs = Inr (kept, f') \<Longrightarrow> fast_aa f' = None"
  using calc_fast_aa_returns_None [of f st]
  by (auto simp: apply_cfilter_def bind_def Let_def split: sum.splits)

lemma apply_filter_without_transform:
  "fast_aa f = None \<Longrightarrow> apply_filter altaz cv f ob = apply_filter altaz' cv f ob"
  by (simp add: apply_filter_def)

lemma filter_list_cong:
  "(\<And>x. x \<in> set xs \<Longrightarrow> p x = q x) \<Longrightarrow> filter_list p xs = filter_list q xs"
  by (induction xs) simp_all

lemma apply_cfilter_ignores_altitude:
  "apply_cfilter altaz cv f st objs = apply_cfilter altaz' cv f st objs"
proof (cases "calc_fast_aa f st")
  case (Inl e)
  then show ?thesis by (simp add: apply_cfilter_def bind_def)
next
  case (Inr p)
  obtain f1 r where p: "p = (f1, r)" by (cases p)
  have r: "r = None" using Inr p calc_fast_aa_returns_None by blast
  have "filter_list (apply_filter altaz cv (f1\<lparr>fast_aa := None\<rparr>)) objs
      = filter_list (apply_filter altaz' cv (f1\<lparr>fast_aa := None\<rparr>)) objs"
    by (rule filter_list_cong) (simp add: apply_filter_def)
  then show ?thesis using Inr p r by (simp add: apply_cfilter_def bind_def)
qed

lemma sample_calc:
  "calc_fast_aa sample_filter sample_shared = Inr (sample_filter\<lparr>fast_aa := Some (FastAltAz 50 4 0)\<rparr>, None)"
  by (simp add: calc_fast_aa_def sample_shared_def truthy_dict_def dict_get_def bind_def)

text \<open>
  Claim C4 (evaluation). The filter has an altitude floor of 10 degrees and no other
  check; location, datetime and solution are all present; the object stands at an
  altitude of -5 degrees. \<open>calc_fast_aa\<close> builds the transform, and \<open>apply_filter\<close>
  with that transform rejects the object; but \<open>apply\<close> assigns the value returned by
  \<open>calc_fast_aa\<close>, which is \<open>None\<close>, to \<open>fast_aa\<close>, and the object is kept.
\<close>

theorem apply_skips_altitude_check:
  "map_sum id fst (apply_cfilter (\<lambda>aa r d. Finite (- 5)) sample_conv sample_filter sample_shared
       [sample_obj 1 5 ''NGC'']) = Inr [sample_obj 1 5 ''NGC'']
   \<and> apply_filter (\<lambda>aa r d. Finite (- 5)) sample_conv
       (sample_filter\<lparr>fast_aa := Some (FastAltAz 50 4 0)\<rparr>) (sample_obj 1 5 ''NGC'') = Inr False
   \<and> calc_fast_aa sample_filter sample_shared
       = Inr (sample_filter\<lparr>fast_aa := Some (FastAltAz 50 4 0)\<rparr>, None)"
proof -
  have a: "apply_filter (\<lambda>aa r d. Finite (- 5)) sample_conv (sample_filter\<lparr>fast_aa := None\<rparr>)
      (sample_obj 1 5 ''NGC'') = Inr True"
    by (simp add: apply_filter_def sample_filter_def bind_def obj_mag_of_def py_float_def sample_obj_def)
  have b: "apply_filter (\<lambda>aa r d. Finite (- 5)) sample_conv
       (sample_filter\<lparr>fast_aa := Some (FastAltAz 50 4 0)\<rparr>) (sample_obj 1 5 ''NGC'') = Inr False"
    by (simp add: apply_filter_def sample_filter_def bind_def py_less_def num_of_def)
  have "apply_cfilter (\<lambda>aa r d. Finite (- 5)) sample_conv sample_filter sample_shared [sample_obj 1 5 ''NGC'']
      = Inr ([sample_obj 1 5 ''NGC''], sample_filter\<lparr>fast_aa := None\<rparr>)"
    using a by (simp add: apply_cfilter_def sample_calc bind_def)
  then show ?thesis using b sample_calc by simp
qed

lemma py_float_errors:
  "py_float cv v = Inl e \<Longrightarrow> e = TypeError \<or> e = ValueError \<or> e = OverflowError"
  by (auto simp: py_float_def split: pyval.splits option.splits)

lemma obj_mag_of_malformed:
  "py_float cv (mag ob) = Inl e \<Longrightarrow> e = TypeError \<or> e = ValueError \<Longrightarrow>
     obj_mag_of cv ob = Inr (Finite 99)"
  by (auto simp: obj_mag_of_def)

lemma obj_mag_of_overflow:
  "py_float cv (mag ob) = Inl OverflowError \<Longrightarrow> obj_mag_of cv ob = Inl OverflowError"
  by (simp add: obj_mag_of_def)

text \<open>On the filter that \<open>Catalog.__init__\<close> installs, whose settings are Python
  \<open>None\<close>, the comparison with the magnitude setting raises \<open>TypeError\<close> for every
  object whose magnitude was obtained: the settings have to be set before a filter run.\<close>

lemma default_filter_raises:
  "obj_mag_of cv ob = Inr x \<Longrightarrow> apply_filter altaz cv CatalogFilter_init ob = Inl TypeError"
  by (simp add: apply_filter_def CatalogFilter_init_def bind_def py_ge_def num_of_def)

lemma sample_overflow: "\<not> \<bar>float_limit\<bar> < float_limit"
  by simp

text \<open>
  Claim C8, as stated, fails for a magnitude that is an int too large for a float:
  \<open>float(2 ** 1024)\<close> raises \<open>OverflowError\<close>, which \<open>except (ValueError, TypeError)\<close>
  does not catch. With a magnitude ceiling of 12 set, the magnitude is not replaced by 99
  and the object is not rejected: \<open>apply_filter\<close> raises.
\<close>

theorem apply_filter_overflow_not_recovered:
  "py_float sample_conv (mag ((sample_obj 1 5 ''NGC'')\<lparr>mag := PInt float_limit\<rparr>)) = Inl OverflowError
   \<and> apply_filter (\<lambda>aa r d. Finite 30) sample_conv (sample_filter\<lparr>magnitude_filter := PInt 12\<rparr>)
        ((sample_obj 1 5 ''NGC'')\<lparr>mag := PInt float_limit\<rparr>) = Inl OverflowError"
proof -
  have p: "py_float sample_conv (mag ((sample_obj 1 5 ''NGC'')\<lparr>mag := PInt float_limit\<rparr>))
      = Inl OverflowError"
    using sample_overflow by (simp add: py_float_def sample_conv_def)
  have "apply_filter (\<lambda>aa r d. Finite 30) sample_conv (sample_filter\<lparr>magnitude_filter := PInt 12\<rparr>)
        ((sample_obj 1 5 ''NGC'')\<lparr>mag := PInt float_limit\<rparr>) = Inl OverflowError"
    using obj_mag_of_overflow [OF p] by (simp add: apply_filter_def sample_filter_def bind_def)
  with p show ?thesis by simp
qed

text \<open>
  Claim C8, amended. For every object whose \<open>mag\<close> makes \<open>float\<close> raise \<open>TypeError\<close> or
  \<open>ValueError\<close> (\<open>None\<close>, or a string that is not a float literal), the error is caught
  and the magnitude is taken as 99. Provided the altitude setting is the sentinel or a
  number (or no transform is set), \<open>apply_filter\<close> raises nothing whenever the magnitude
  setting is the sentinel or a number and the type setting is a list; and with a numeric
  magnitude ceiling of at most 99 the object is rejected.
\<close>

theorem apply_filter_malformed_mag:
  assumes bad: "py_float cv (mag ob) = Inl e"
    and caught: "e = TypeError \<or> e = ValueError"
    and alt: "fast_aa f = None \<or> altitude_filter f = PStr ''None'' \<or> num_of (altitude_filter f) \<noteq> None"
  shows "obj_mag_of cv ob = Inr (Finite 99)
    \<and> ((magnitude_filter f = PStr ''None'' \<or> num_of (magnitude_filter f) \<noteq> None)
          \<and> type_filter f \<noteq> None
          \<longrightarrow> (\<exists>b. apply_filter altaz cv f ob = Inr b))
    \<and> (\<forall>y. num_of (magnitude_filter f) = Some y \<and> fl_ge (Finite 99) y
          \<longrightarrow> apply_filter altaz cv f ob = Inr False)"
proof -
  note m = obj_mag_of_malformed [OF bad caught]
  have altc: "\<exists>b. (case fast_aa f of
             Some aa \<Rightarrow>
               if altitude_filter f \<noteq> PStr ''None''
               then py_less (altaz aa (ra ob) (dec ob)) (altitude_filter f)
               else Inr False
           | None \<Rightarrow> Inr False) = Inr b"
    using alt by (auto simp: py_less_def split: option.splits)
  then obtain low where low: "(case fast_aa f of
             Some aa \<Rightarrow>
               if altitude_filter f \<noteq> PStr ''None''
               then py_less (altaz aa (ra ob) (dec ob)) (altitude_filter f)
               else Inr False
           | None \<Rightarrow> Inr False) = Inr low" by blast
  have a: "\<exists>b. apply_filter altaz cv f ob = Inr b"
    if "magnitude_filter f = PStr ''None'' \<or> num_of (magnitude_filter f) \<noteq> None"
      "type_filter f \<noteq> None"
    using that unfolding apply_filter_def low m
    by (auto simp: bind_def py_ge_def)
  have b: "apply_filter altaz cv f ob = Inr False"
    if "num_of (magnitude_filter f) = Some y" "fl_ge (Finite 99) y" for y
  proof -
    have "magnitude_filter f \<noteq> PStr ''None''" using that(1) by (auto simp: num_of_def)
    then show ?thesis using that unfolding apply_filter_def low m
      by (simp add: bind_def py_ge_def)
  qed
  show ?thesis using m a b by blast
qed

text \<open>An object whose magnitude is the string \<open>--\<close>: with a ceiling of 12 it is
  rejected; with no ceiling set the call returns without raising.\<close>

theorem apply_filter_malformed_mag_witness:
  "py_float sample_conv (mag ((sample_obj 1 5 ''NGC'')\<lparr>mag := PStr ''--''\<rparr>)) = Inl ValueError
   \<and> obj_mag_of sample_conv ((sample_obj 1 5 ''NGC'')\<lparr>mag := PStr ''--''\<rparr>) = Inr (Finite 99)
   \<and> apply_filter (\<lambda>aa r d. Finite 30) sample_conv (sample_filter\<lparr>magnitude_filter := PInt 12\<rparr>)
        ((sample_obj 1 5 ''NGC'')\<lparr>mag := PStr ''--''\<rparr>) = Inr False
   \<and> (\<exists>b. apply_filter (\<lambda>aa r d. Finite 30) sample_conv sample_filter
        ((sample_obj 1 5 ''NGC'')\<lparr>mag := PStr ''--''\<rparr>) = Inr b)"
proof -
  have bad: "py_float sample_conv (mag ((sample_obj 1 5 ''NGC'')\<lparr>mag := PStr ''--''\<rparr>)) = Inl ValueError"
    by (simp add: py_float_def sample_conv_def)
  have caught: "ValueError = TypeError \<or> ValueError = ValueError" by simp
  have alt: "fast_aa f = None \<or> altitude_filter f = PStr ''None'' \<or> num_of (altitude_filter f) \<noteq> None"
    if "f = sample_filter\<lparr>magnitude_filter := PInt 12\<rparr> \<or> f = sample_filter" for f
    using that by (auto simp: sample_filter_def)
  have 1: "num_of (magnitude_filter (sample_filter\<lparr>magnitude_filter := PInt 12\<rparr>)) = Some (Finite 12)
      \<and> fl_ge (Finite 99) (Finite 12)"
    by (simp add: num_of_def fl_ge_def)
  have 2: "(magnitude_filter sample_filter = PStr ''None'' \<or> num_of (magnitude_filter sample_filter) \<noteq> None)
      \<and> type_filter sample_filter \<noteq> None"
    by (simp add: sample_filter_def)
  show ?thesis
    using apply_filter_malformed_mag [OF bad caught alt,
        of "sample_filter\<lparr>magnitude_filter := PInt 12\<rparr>" "\<lambda>aa r d. Finite 30"]
      apply_filter_malformed_mag [OF bad caught alt, of sample_filter "\<lambda>aa r d. Finite 30"] bad 1 2
    by blast
qed

section \<open>Foreign catalogs and the nearest-object query\<close>

lemma Catalog_new_surplus: "extra \<noteq> [] \<Longrightarrow> Catalog_new code m d extra h = Inl TypeError"
  by (simp add: Catalog_new_def)

lemma add_foreign_catalog_raises: "\<exists>e. add_foreign_catalog t h cname = Inl e"
  by (auto simp: add_foreign_catalog_def Let_def split_beta bind_def Catalog_new_def split: sum.splits)

lemma tracker_dict_twice: "fst (tracker_dict (snd (tracker_dict t))) = fst (tracker_dict t)"
  by (simp add: tracker_dict_def split_beta get_dict_twice)

lemma tracker_dict_frame:
  "catalogs (tracker_catalogs (snd (tracker_dict t))) = catalogs (tracker_catalogs t)"
  "designator_tracker (snd (tracker_dict t)) = designator_tracker t"
  "object_tracker (snd (tracker_dict t)) = object_tracker t"
  by (simp_all add: tracker_dict_def split_beta get_dict_catalogs)

text \<open>With the code already registered, \<open>set_current_catalog\<close> registers nothing: it
  makes the catalog stored under the code current.\<close>

lemma set_current_catalog_known:
  assumes "cname \<in> fst ` set (fst (tracker_dict t))"
  shows "\<exists>t'. set_current_catalog t h cname = Inr (t', h)
     \<and> catalogs (tracker_catalogs t') = catalogs (tracker_catalogs t)
     \<and> designator_tracker t' = designator_tracker t \<and> object_tracker t' = object_tracker t
     \<and> current_catalog_name t' = cname
     \<and> map_of (fst (tracker_dict t)) cname = Some (current_catalog t')"
proof -
  define d where "d = fst (tracker_dict t)"
  define t1 where "t1 = snd (tracker_dict t)"
  define t2 where "t2 = snd (tracker_dict t1)"
  define t3 where "t3 = snd (tracker_dict t2)"
  have 1: "tracker_dict t = (d, t1)" by (simp add: d_def t1_def)
  have 2: "tracker_dict t1 = (d, t2)" by (simp add: d_def t1_def t2_def tracker_dict_twice prod_eq_iff)
  have 3: "tracker_dict t2 = (d, t3)"
    using 2 by (simp add: t2_def t3_def prod_eq_iff tracker_dict_twice)
  from assms obtain c where c: "map_of d cname = Some c"
    by (cases "map_of d cname") (auto simp: d_def map_of_eq_None_iff)
  have k: "cname \<in> fst ` set d" using assms by (simp add: d_def)
  have "set_current_catalog t h cname = Inr (t3\<lparr>current_catalog := c, current_catalog_name := cname\<rparr>, h)"
    using k c by (simp add: set_current_catalog_def 1 2 3 bind_def dict_get_def)
  moreover have "catalogs (tracker_catalogs t3) = catalogs (tracker_catalogs t)"
    "designator_tracker t3 = designator_tracker t" "object_tracker t3 = object_tracker t"
    by (simp_all add: t3_def t2_def t1_def tracker_dict_frame)
  ultimately show ?thesis using c by (simp add: d_def)
qed

lemma set_current_catalog_unknown_raises:
  "cname \<notin> fst ` set (fst (tracker_dict t)) \<Longrightarrow> \<exists>e. set_current_catalog t h cname = Inl e"
  using add_foreign_catalog_raises [of "snd (tracker_dict t)" h cname]
  by (auto simp: set_current_catalog_def split_beta bind_def)

lemma sample_registry_dict:
  "get_dict (Catalogs_init [sample_indexed_catalog])
     = ([(''NGC'', sample_indexed_catalog)],
        \<lparr>catalogs = [sample_indexed_catalog], catalog_dict = [(''NGC'', sample_indexed_catalog)]\<rparr>)"
  by (simp add: get_dict_def Catalogs_init_def Let_def dict_of_pairs_def sample_indexed_catalog_def
      sample_catalog_def)

text \<open>
  Claim C5 (evaluation). The registry of the sample tracker holds \<open>NGC\<close> only.
  \<open>set_current_catalog("PUSH")\<close> calls \<open>add_foreign_catalog\<close>, which constructs the
  catalog with a fourth positional argument and raises \<open>TypeError\<close>: no catalog is
  registered and none becomes current.
\<close>

theorem set_current_catalog_push_raises:
  "fst (tracker_dict (sample_tracker None)) = [(''NGC'', sample_indexed_catalog)]
   \<and> set_current_catalog (sample_tracker None) sample_heap ''PUSH'' = Inl TypeError"
proof -
  define t1 where "t1 = snd (tracker_dict (sample_tracker None))"
  have d: "tracker_dict (sample_tracker None) = ([(''NGC'', sample_indexed_catalog)], t1)"
    by (simp add: t1_def tracker_dict_def sample_tracker_def sample_registry_dict)
  have t1: "object_tracker t1 = [(''NGC'', None)]" "current_catalog_name t1 = ''NGC''"
    "designator_tracker t1 = [(''NGC'', CatalogDesignator_init ''NGC'' 7840)]"
    by (simp_all add: t1_def tracker_dict_def sample_tracker_def sample_registry_dict)
  obtain ns t2 where n: "tracker_names t1 = (ns, t2)" by (cases "tracker_names t1")
  have t2: "object_tracker t2 = [(''NGC'', None)]" "current_catalog_name t2 = ''NGC''"
    "designator_tracker t2 = [(''NGC'', CatalogDesignator_init ''NGC'' 7840)]"
    using n t1 by (auto simp: tracker_names_def split_beta)
  have g: "get_current_object t2 sample_heap = Inr None"
    by (simp add: get_current_object_def t2 dict_get_def bind_def)
  have ds: "get_designator t2 None = Inr (CatalogDesignator_init ''NGC'' 7840)"
    by (simp add: get_designator_def designator_key_def t2 dict_get_def)
  have "add_foreign_catalog t1 sample_heap ''PUSH'' = Inl TypeError"
    by (simp add: add_foreign_catalog_def n g ds bind_def Catalog_new_surplus)
  then have "set_current_catalog (sample_tracker None) sample_heap ''PUSH'' = Inl TypeError"
    by (simp add: set_current_catalog_def d bind_def)
  then show ?thesis using d by simp
qed

text \<open>
  Claim C3 (evaluation). Whatever the tracker, the position and \<open>n\<close>:
  \<open>get_closest_objects\<close> on the current catalog calls \<open>.values()\<close> on the list
  \<open>filtered_objects\<close>, and with a non-empty list of catalog codes it calls
  \<open>self.catalogs.get\<close>, which class \<open>Catalogs\<close> does not define. Both raise
  \<open>AttributeError\<close> before any distance is computed.
\<close>

theorem get_closest_objects_raises:
  "get_closest_objects deg2rad balltree_query t h ra0 dec0 n None = Inl AttributeError
   \<and> get_closest_objects deg2rad balltree_query t h ra0 dec0 n (Some (k # ks)) = Inl AttributeError"
  by (simp add: get_closest_objects_def select_catalogs_def list_values_def Catalogs_get_def bind_def)

end
